theory Spec2Isabelle
  imports Complex_Main "HOL-Library.Extended_Nat" "HOL-Library.Word" "HOL-Library.Multiset"
begin

section \<open>Perceptual hashing, matching and screenshot scoring (perceptual-hash.ts)\<close>

text \<open>
  Conventions of the embedding.
  \<^item> A JavaScript string is a \<open>string\<close> of ASCII characters; \<open>length\<close> is \<open>.length\<close>.
  \<^item> \<open>Uint8ClampedArray\<close> is a list of \<open>8 word\<close>.
  \<^item> Integer-valued Numbers that come out of \<open>parseInt\<close> are modelled exactly, including
    the rounding of an integer to the nearest IEEE double (53 significant bits, ties to even).
  \<^item> The luminance of a pixel and the edge strengths, their total and the two quotients of
    the fourth detection of \<open>detectScreenshot\<close> are computed on doubles: every operation
    is the exact one followed by the rounding \<open>fl\<close>.
  \<^item> Other Numbers are real numbers (the exact value of the double, rounding of
    \<open>+ - * / sqrt cos\<close> idealised): the DCT, the Sobel sums, variances, similarities and
    the score.
  \<^item> \<open>NaN\<close> is \<open>None\<close> of \<open>real option\<close> where the source can produce it (a read outside
    an array, \<open>0/0\<close>).
  \<^item> Names are those of the source, but for \<open>size\<close> (here \<open>sz\<close>), the field \<open>id\<close> of an
    artwork (\<open>artwork_id\<close>) and the field \<open>confidence\<close> of a screenshot verdict
    (\<open>verdictConfidence\<close>), which would clash with existing constants.
\<close>

subsection \<open>Number and String primitives used by the source\<close>

datatype jsnumber = NaN | Finite int | PosInfinity | NegInfinity

function bitLength :: "nat \<Rightarrow> nat" where
  "bitLength n = (if n = 0 then 0 else Suc (bitLength (n div 2)))"
  by pat_completeness auto
termination
  by (relation "measure (\<lambda>n. n)") auto

declare bitLength.simps [simp del]

text \<open>The Number value of a non-negative integer: round to 53 significant bits, ties to
  even; \<open>None\<close> is the overflow to Infinity.\<close>

definition roundToDouble :: "nat \<Rightarrow> nat option" where
  "roundToDouble n =
     (let e = bitLength n in
      if e \<le> 53 then Some n
      else
        let sh = e - 53;
            q = n div 2 ^ sh;
            r = n mod 2 ^ sh;
            half = 2 ^ (sh - 1);
            q' = (if r > half \<or> (r = half \<and> odd q) then q + 1 else q);
            m = q' * 2 ^ sh
        in if m \<ge> 2 ^ 1024 then None else Some m)"

definition numberOfInt :: "int \<Rightarrow> jsnumber" where
  "numberOfInt i =
     (case roundToDouble (nat \<bar>i\<bar>) of
        None \<Rightarrow> (if i < 0 then NegInfinity else PosInfinity)
      | Some m \<Rightarrow> Finite (sgn i * int m))"

definition isStrWhiteSpaceChar :: "char \<Rightarrow> bool" where
  "isStrWhiteSpaceChar c = (of_char c \<in> {9, 10, 11, 12, 13, 32 :: nat})"

definition digitValue :: "char \<Rightarrow> nat option" where
  "digitValue c =
     (let k = (of_char c :: nat) in
      if 48 \<le> k \<and> k \<le> 57 then Some (k - 48)
      else if 97 \<le> k \<and> k \<le> 122 then Some (k - 87)
      else if 65 \<le> k \<and> k \<le> 90 then Some (k - 55)
      else None)"

definition isRadixDigit :: "nat \<Rightarrow> char \<Rightarrow> bool" where
  "isRadixDigit R c = (case digitValue c of None \<Rightarrow> False | Some d \<Rightarrow> d < R)"

definition digitsValue :: "nat \<Rightarrow> string \<Rightarrow> nat" where
  "digitsValue R Z = foldl (\<lambda>acc c. acc * R + the (digitValue c)) 0 Z"

text \<open>\<open>parseInt(string, radix)\<close> of ECMA-262: skip leading white space, read a sign, strip
  \<open>0x\<close> for radix 16, take the longest prefix of digits of the radix; no digit gives NaN.\<close>

definition parseInt :: "string \<Rightarrow> nat \<Rightarrow> jsnumber" where
  "parseInt inputString radix =
     (let S = dropWhile isStrWhiteSpaceChar inputString;
          sign = (if S \<noteq> [] \<and> hd S = CHR ''-'' then - 1 else 1 :: int);
          S1 = (if S \<noteq> [] \<and> (hd S = CHR ''+'' \<or> hd S = CHR ''-'') then tl S else S);
          R0 = (if radix = 0 then 10 else radix);
          stripPrefix = (radix = 0 \<or> radix = 16);
          hasPrefix = (stripPrefix \<and> (take 2 S1 = ''0x'' \<or> take 2 S1 = ''0X''));
          S2 = (if hasPrefix then drop 2 S1 else S1);
          R = (if hasPrefix then 16 else R0);
          Z = takeWhile (isRadixDigit R) S2
      in if R < 2 \<or> R > 36 then NaN
         else if Z = [] then NaN
         else numberOfInt (sign * int (digitsValue R Z)))"

definition digitChar :: "nat \<Rightarrow> char" where
  "digitChar d = ''0123456789abcdefghijklmnopqrstuvwxyz'' ! d"

function toDigits :: "nat \<Rightarrow> nat \<Rightarrow> string" where
  "toDigits R n =
     (if R < 2 \<or> n < R then [digitChar n]
      else toDigits R (n div R) @ [digitChar (n mod R)])"
  by pat_completeness auto
termination
  by (relation "measure (\<lambda>(R, n). n)") auto

declare toDigits.simps [simp del]

text \<open>\<open>Number.prototype.toString(radix)\<close> on the values \<open>parseInt\<close> returns.\<close>

definition toStringRadix :: "jsnumber \<Rightarrow> nat \<Rightarrow> string" where
  "toStringRadix x R =
     (case x of
        NaN \<Rightarrow> ''NaN''
      | PosInfinity \<Rightarrow> ''Infinity''
      | NegInfinity \<Rightarrow> ''-Infinity''
      | Finite i \<Rightarrow> (if i < 0 then CHR ''-'' # toDigits R (nat (- i)) else toDigits R (nat i)))"

definition padStart :: "nat \<Rightarrow> char \<Rightarrow> string \<Rightarrow> string" where
  "padStart n c s = replicate (n - length s) c @ s"

text \<open>\<open>s[i]\<close>: \<open>undefined\<close> (here \<open>None\<close>) outside the string.\<close>

definition charAt :: "string \<Rightarrow> nat \<Rightarrow> char option" where
  "charAt s i = (if i < length s then Some (s ! i) else None)"

subsection \<open>calculateHammingDistance\<close>

definition calculateHammingDistance :: "string \<Rightarrow> string \<Rightarrow> enat" where
  "calculateHammingDistance hash1 hash2 =
     (if length hash1 \<noteq> length hash2 then \<infinity>
      else
        let bin1 = padStart 64 (CHR ''0'') (toStringRadix (parseInt hash1 16) 2);
            bin2 = padStart 64 (CHR ''0'') (toStringRadix (parseInt hash2 16) 2)
        in enat (foldl (\<lambda>distance i. if charAt bin1 i \<noteq> charAt bin2 i then distance + 1 else distance)
                   0 [0..<length bin1]))"

subsection \<open>cosineSimilarity\<close>

text \<open>The loop of \<open>cosineSimilarity\<close> runs only when both lengths agree, so every read is
  in range.\<close>

definition cosineSimilarity :: "real list \<Rightarrow> real list \<Rightarrow> real" where
  "cosineSimilarity vec1 vec2 =
     (if length vec1 \<noteq> length vec2 then 0
      else
        let dotProduct = foldl (\<lambda>s i. s + vec1 ! i * vec2 ! i) 0 [0..<length vec1];
            mag1 = foldl (\<lambda>s i. s + vec1 ! i * vec1 ! i) 0 [0..<length vec1];
            mag2 = foldl (\<lambda>s i. s + vec2 ! i * vec2 ! i) 0 [0..<length vec1];
            magnitude = sqrt mag1 * sqrt mag2
        in if magnitude = 0 then 0 else dotProduct / magnitude)"

subsection \<open>Numbers that may be NaN, reads that may be undefined, loops\<close>

text \<open>Arithmetic and comparison with NaN: an operation with a NaN operand is NaN, a
  comparison with NaN is false.\<close>

definition nadd :: "real option \<Rightarrow> real option \<Rightarrow> real option" where
  "nadd a b = (case (a, b) of (Some x, Some y) \<Rightarrow> Some (x + y) | _ \<Rightarrow> None)"

definition nsub :: "real option \<Rightarrow> real option \<Rightarrow> real option" where
  "nsub a b = (case (a, b) of (Some x, Some y) \<Rightarrow> Some (x - y) | _ \<Rightarrow> None)"

definition nmul :: "real option \<Rightarrow> real option \<Rightarrow> real option" where
  "nmul a b = (case (a, b) of (Some x, Some y) \<Rightarrow> Some (x * y) | _ \<Rightarrow> None)"

definition ngt :: "real option \<Rightarrow> real option \<Rightarrow> bool" where
  "ngt a b = (case (a, b) of (Some x, Some y) \<Rightarrow> x > y | _ \<Rightarrow> False)"

definition nlt :: "real option \<Rightarrow> real option \<Rightarrow> bool" where
  "nlt a b = (case (a, b) of (Some x, Some y) \<Rightarrow> x < y | _ \<Rightarrow> False)"

text \<open>The double nearest to a real: 53 significant bits, ties to even. The exponent is
  not bounded here. On the paths that use \<open>fl\<close>, for a width and a height below \<open>2 ^ 32\<close>,
  every result is 0 or lies between \<open>2 ^ -200\<close> and \<open>2 ^ 200\<close> in absolute value, inside
  the normal range of a double, where this is the IEEE 754 rounding. A decimal literal of
  the source denotes the double nearest to it.\<close>

definition fl :: "real \<Rightarrow> real" where
  "fl x =
     (if x = 0 then 0
      else
        let e = \<lfloor>log 2 \<bar>x\<bar>\<rfloor>;
            u = (2 :: real) powr (of_int e - 52);
            m = x / u;
            n = \<lfloor>m\<rfloor>;
            f = m - of_int n
        in (if f < 1 / 2 \<or> (f = 1 / 2 \<and> even n) then of_int n else of_int n + 1) * u)"

text \<open>\<open>+\<close>, \<open>-\<close> and \<open>*\<close> on doubles: the exact result, rounded.\<close>

definition dadd :: "real option \<Rightarrow> real option \<Rightarrow> real option" where
  "dadd a b = map_option fl (nadd a b)"

definition dsub :: "real option \<Rightarrow> real option \<Rightarrow> real option" where
  "dsub a b = map_option fl (nsub a b)"

definition dmul :: "real option \<Rightarrow> real option \<Rightarrow> real option" where
  "dmul a b = map_option fl (nmul a b)"

text \<open>\<open>data[i]\<close> on a \<open>Uint8ClampedArray\<close>: \<open>undefined\<close> outside the array, which the
  arithmetic that follows turns into NaN.\<close>

definition rd :: "8 word list \<Rightarrow> int \<Rightarrow> real option" where
  "rd d i = (if 0 \<le> i \<and> nat i < length d then Some (real (unat (d ! nat i))) else None)"

text \<open>\<open>0.299 * data[idx] + 0.587 * data[idx + 1] + 0.114 * data[idx + 2]\<close>\<close>

definition gray :: "8 word list \<Rightarrow> int \<Rightarrow> real option" where
  "gray d idx =
     dadd (dadd (dmul (Some (fl 0.299)) (rd d idx)) (dmul (Some (fl 0.587)) (rd d (idx + 1))))
          (dmul (Some (fl 0.114)) (rd d (idx + 2)))"

text \<open>\<open>for (let i = a; i < n; i += step) s = body(i, s)\<close>. Every loop of the source
  steps by a positive literal.\<close>

function forStep :: "nat \<Rightarrow> nat \<Rightarrow> nat \<Rightarrow> (nat \<Rightarrow> 's \<Rightarrow> 's) \<Rightarrow> 's \<Rightarrow> 's" where
  "forStep i n step body s =
     (if i < n \<and> 0 < step then forStep (i + step) n step body (body i s) else s)"
  by pat_completeness auto
termination
  by (relation "measure (\<lambda>(i, n, step, body, s). n - i)") auto

declare forStep.simps [simp del]

datatype 'a promise = Resolved 'a | Rejected string

text \<open>What the browser does for one call: whether the image element fires \<open>onload\<close> or
  \<open>onerror\<close>, the natural size of the image, whether the canvas has a 2D context, and what
  \<open>drawImage\<close> followed by \<open>getImageData(0, 0, sw, sh)\<close> yields on a canvas of that size
  (\<open>Inl\<close>: an exception is thrown).\<close>

record browser =
  imageLoads :: bool
  imgWidth :: nat
  imgHeight :: nat
  context2d :: bool
  getImageData :: "nat \<Rightarrow> nat \<Rightarrow> string + 8 word list"

record imageData =
  width :: nat
  height :: nat
  data :: "8 word list"

subsection \<open>generatePerceptualHash and computeDCTHash\<close>

definition grayscaleOf :: "8 word list \<Rightarrow> real option list" where
  "grayscaleOf pixels =
     forStep 0 (length pixels) 4 (\<lambda>i grayscale. grayscale @ [gray pixels (int i)]) []"

text \<open>\<open>grayscale[i]\<close>\<close>

definition pixelAt :: "real option list \<Rightarrow> nat \<Rightarrow> real option" where
  "pixelAt grayscale i = (if i < length grayscale then grayscale ! i else None)"

definition dctTerm :: "real option list \<Rightarrow> nat \<Rightarrow> nat \<Rightarrow> nat \<Rightarrow> nat \<Rightarrow> nat \<Rightarrow> real option" where
  "dctTerm grayscale sz u v x y =
     nmul (nmul (pixelAt grayscale (y * sz + x))
                (Some (cos (real ((2 * x + 1) * u) * pi / real (2 * sz)))))
          (Some (cos (real ((2 * y + 1) * v) * pi / real (2 * sz))))"

definition dctSum :: "real option list \<Rightarrow> nat \<Rightarrow> nat \<Rightarrow> nat \<Rightarrow> real option" where
  "dctSum grayscale sz u v =
     foldl (\<lambda>acc x. foldl (\<lambda>acc y. nadd acc (dctTerm grayscale sz u v x y)) acc [0..<sz])
       (Some 0) [0..<sz]"

definition dctCoeff :: "real option list \<Rightarrow> nat \<Rightarrow> nat \<Rightarrow> nat \<Rightarrow> real option" where
  "dctCoeff grayscale sz u v =
     (let cu = (if u = 0 then 1 / sqrt 2 else 1);
          cv = (if v = 0 then 1 / sqrt 2 else 1)
      in nmul (nmul (Some (cu * cv)) (dctSum grayscale sz u v)) (Some (1 / 4)))"

definition dctCoeffs :: "real option list \<Rightarrow> nat \<Rightarrow> real option list" where
  "dctCoeffs grayscale sz =
     foldl (\<lambda>cs u. foldl (\<lambda>cs v. cs @ [dctCoeff grayscale sz u v]) cs [0..<8]) [] [0..<8]"

text \<open>\<open>xs.sort((a, b) => a - b)\<close>. On numbers the comparator is consistent and the result
  is the ascending arrangement. With a NaN among them the comparator is not consistent and
  the standard leaves the order to the implementation; the only such array the source
  sorts has NaN in every place, and is left as it is.\<close>

definition sortNumbers :: "real option list \<Rightarrow> real option list" where
  "sortNumbers xs = (if list_all (\<lambda>x. x \<noteq> None) xs then map Some (sort (map the xs)) else xs)"

text \<open>\<open>dctCoeffs.slice(1).sort((a, b) => a - b)[Math.floor(dctCoeffs.length / 2)]\<close>\<close>

definition medianCoeff :: "real option list \<Rightarrow> real option" where
  "medianCoeff cs = pixelAt (sortNumbers (drop 1 cs)) (length cs div 2)"

definition hashBits :: "real option list \<Rightarrow> string" where
  "hashBits cs =
     foldl (\<lambda>hash i. hash @ [if ngt (cs ! i) (medianCoeff cs) then CHR ''1'' else CHR ''0''])
       [] [0..<length cs]"

definition computeDCTHash :: "real option list \<Rightarrow> nat \<Rightarrow> string" where
  "computeDCTHash grayscale sz =
     padStart 16 (CHR ''0'') (toStringRadix (parseInt (hashBits (dctCoeffs grayscale sz)) 2) 16)"

definition generatePerceptualHash :: "browser \<Rightarrow> string promise" where
  "generatePerceptualHash b =
     (if \<not> imageLoads b then Rejected ''Failed to load image''
      else if \<not> context2d b then Rejected ''Could not get canvas context''
      else case getImageData b 32 32 of
             Inl e \<Rightarrow> Rejected e
           | Inr pixels \<Rightarrow> Resolved (computeDCTHash (grayscaleOf pixels) 32))"

subsection \<open>findSimilarArtwork\<close>

record artwork =
  artwork_id :: string
  perceptual_hash :: "string option"
  title :: string
  user_id :: string

record match =
  artwork :: artwork
  distance :: enat
  confidence :: real

text \<open>\<open>1 - d / 64\<close> is exact on doubles for an integer \<open>d\<close> up to 64, and negative (so
  clamped to 0) beyond; for Infinity it is \<open>-Infinity\<close>, clamped to 0.\<close>

definition calculateConfidence :: "enat \<Rightarrow> real" where
  "calculateConfidence hammingDistance =
     (case hammingDistance of
        enat d \<Rightarrow> max 0 (min 1 (1 - real d / 64))
      | \<infinity> \<Rightarrow> 0)"

text \<open>\<open>!artwork.perceptual_hash\<close>: true for \<open>null\<close> and for the empty string.\<close>

definition falsy :: "string option \<Rightarrow> bool" where
  "falsy h = (h = None \<or> h = Some [])"

definition strictThreshold :: enat where "strictThreshold = 12"
definition moderateThreshold :: enat where "moderateThreshold = 20"

definition matchStep :: "string \<Rightarrow> match option \<Rightarrow> artwork \<Rightarrow> match option" where
  "matchStep perceptualHash closestMatch a =
     (if falsy (perceptual_hash a) then closestMatch
      else
        let d = calculateHammingDistance perceptualHash (the (perceptual_hash a)) in
        if d \<le> moderateThreshold then
          (let c = calculateConfidence d in
           if closestMatch = None \<or> d < distance (the closestMatch)
           then Some \<lparr>artwork = a, distance = d, confidence = c\<rparr>
           else closestMatch)
        else closestMatch)"

definition findSimilarArtwork :: "string \<Rightarrow> artwork list \<Rightarrow> match option" where
  "findSimilarArtwork perceptualHash allArtworks =
     foldl (matchStep perceptualHash) None allArtworks"

subsection \<open>analyzeImageFeatures\<close>

text \<open>\<open>histogram[k]++\<close>: a NaN index leaves every element as it is. An index past the end
  is not reached: the callers pass indices below 48 and at most 9.\<close>

definition incrAt :: "nat list \<Rightarrow> nat option \<Rightarrow> nat list" where
  "incrAt histogram k =
     (case k of
        None \<Rightarrow> histogram
      | Some j \<Rightarrow> (if j < length histogram then histogram[j := histogram ! j + 1] else histogram))"

text \<open>\<open>Math.floor(pixels[i] / binSize)\<close> with \<open>binSize = 256 / 16\<close>\<close>

definition chanBin :: "8 word list \<Rightarrow> nat \<Rightarrow> nat option" where
  "chanBin pixels i = (if i < length pixels then Some (unat (pixels ! i) div 16) else None)"

definition colorCounts :: "8 word list \<Rightarrow> nat list" where
  "colorCounts pixels =
     forStep 0 (length pixels) 4
       (\<lambda>i histogram.
          incrAt (incrAt (incrAt histogram (chanBin pixels i))
                         (map_option ((+) 16) (chanBin pixels (i + 1))))
                 (map_option ((+) (16 * 2)) (chanBin pixels (i + 2))))
       (replicate (16 * 3) 0)"

definition computeColorHistogram :: "8 word list \<Rightarrow> real option list" where
  "computeColorHistogram pixels =
     (let total = real (length pixels) / 4
      in map (\<lambda>count. if total = 0 then None else Some (real count / total)) (colorCounts pixels))"

definition sobelX :: "real list" where "sobelX = [-1, 0, 1, -2, 0, 2, -1, 0, 1]"
definition sobelY :: "real list" where "sobelY = [-1, -2, -1, 0, 0, 0, 1, 2, 1]"

definition sobelAt :: "imageData \<Rightarrow> nat \<Rightarrow> nat \<Rightarrow> real option \<times> real option" where
  "sobelAt img x y =
     foldl (\<lambda>acc ky. foldl (\<lambda>(gx, gy) kx.
              let idx = ((int y + ky) * int (width img) + (int x + kx)) * 4;
                  g = gray (data img) idx;
                  kernelIdx = nat ((ky + 1) * 3 + (kx + 1))
              in (nadd gx (nmul g (Some (sobelX ! kernelIdx))),
                  nadd gy (nmul g (Some (sobelY ! kernelIdx)))))
            acc [-1, 0, 1])
       (Some 0, Some 0) [-1, 0, 1]"

definition edgeMagnitude :: "imageData \<Rightarrow> nat \<Rightarrow> nat \<Rightarrow> real option" where
  "edgeMagnitude img x y =
     (case sobelAt img x y of (gx, gy) \<Rightarrow> map_option sqrt (nadd (nmul gx gx) (nmul gy gy)))"

definition sobelEdges :: "imageData \<Rightarrow> real option list" where
  "sobelEdges img =
     foldl (\<lambda>edges y. foldl (\<lambda>edges x. edges @ [edgeMagnitude img x y]) edges [1..<width img - 1])
       [] [1..<height img - 1]"

definition nmax :: "real option \<Rightarrow> real option \<Rightarrow> real option" where
  "nmax a b = (case (a, b) of (Some x, Some y) \<Rightarrow> Some (max x y) | _ \<Rightarrow> None)"

text \<open>\<open>Math.max(...xs)\<close>. Of no arguments it is \<open>-Infinity\<close>, which the source then never
  uses (it is only divided into inside a \<open>forEach\<close> over the same empty array); the model
  has no such value and gives NaN there.\<close>

definition mathMax :: "real option list \<Rightarrow> real option" where
  "mathMax xs = (case xs of [] \<Rightarrow> None | x # rest \<Rightarrow> foldl nmax x rest)"

text \<open>\<open>Math.min(9, Math.floor((edge / maxEdge) * 10))\<close> as an index of the histogram:
  \<open>0 / 0\<close> is NaN, a positive number over 0 is Infinity (bin 9); NaN and negative indices name
  no element.\<close>

definition edgeBin :: "real option \<Rightarrow> real option \<Rightarrow> nat option" where
  "edgeBin edge maxEdge =
     (case (edge, maxEdge) of
        (Some e, Some m) \<Rightarrow>
          (if m = 0 then (if e > 0 then Some 9 else None)
           else let b = min 9 \<lfloor>e / m * 10\<rfloor> in if b < 0 then None else Some (nat b))
      | _ \<Rightarrow> None)"

definition computeEdgeFeatures :: "imageData \<Rightarrow> real option list" where
  "computeEdgeFeatures img =
     (let edges = sobelEdges img;
          maxEdge = mathMax edges;
          histogram = foldl (\<lambda>histogram edge. incrAt histogram (edgeBin edge maxEdge))
                        (replicate 10 0) edges
      in map (\<lambda>count. if edges = [] then None else Some (real count / real (length edges)))
           histogram)"

definition computeTextureFeatures :: "imageData \<Rightarrow> real option list" where
  "computeTextureFeatures img =
     (let grayscale = grayscaleOf (data img);
          n = length grayscale;
          mean = (if n = 0 then None else map_option (\<lambda>t. t / real n) (foldl nadd (Some 0) grayscale));
          variance0 = foldl (\<lambda>variance val. nadd variance (map_option (\<lambda>t. t ^ 2) (nsub val mean)))
                        (Some 0) grayscale;
          variance = (if n = 0 then None else map_option (\<lambda>t. t / real n) variance0)
      in [map_option (\<lambda>t. t / 255) mean, map_option (\<lambda>t. sqrt t / 255) variance])"

record features =
  colorHistogram :: "real option list"
  edgeFeatures :: "real option list"
  textureFeatures :: "real option list"

definition analyzeImageFeatures :: "browser \<Rightarrow> features promise" where
  "analyzeImageFeatures b =
     (if \<not> imageLoads b then Rejected ''Failed to load image''
      else if \<not> context2d b then Rejected ''Could not get canvas context''
      else case getImageData b 256 256 of
             Inl e \<Rightarrow> Rejected e
           | Inr pixels \<Rightarrow>
               (let imageData = \<lparr>width = 256, height = 256, data = pixels\<rparr>
                in Resolved \<lparr>colorHistogram = computeColorHistogram pixels,
                             edgeFeatures = computeEdgeFeatures imageData,
                             textureFeatures = computeTextureFeatures imageData\<rparr>))"

subsection \<open>detectScreenshot\<close>

record verdict =
  isScreenshot :: bool
  verdictConfidence :: real
  reason :: string

record scoring =
  detectionScore :: real
  reasons :: "string list"

text \<open>\<open>if (fires) { detectionScore += weight; reasons.push(msg) }\<close>\<close>

definition addSignal :: "bool \<Rightarrow> real \<Rightarrow> string \<Rightarrow> scoring \<Rightarrow> scoring" where
  "addSignal fires weight msg st =
     (if fires then st\<lparr>detectionScore := detectionScore st + weight, reasons := reasons st @ [msg]\<rparr>
      else st)"

definition screenResolutions :: "(nat \<times> nat) list" where
  "screenResolutions =
     [(1920, 1080), (1440, 900), (1366, 768), (1024, 768), (2560, 1440), (3840, 2160),
      (1280, 720), (1600, 1200), (2880, 1800)]"

text \<open>Detection 1; the loop stops at the first resolution that matches.\<close>

definition detectResolution :: "nat \<Rightarrow> nat \<Rightarrow> scoring \<Rightarrow> scoring" where
  "detectResolution w h st =
     addSignal (list_ex (\<lambda>(rw, rh). (w = rw \<and> h = rh) \<or> (w = rh \<and> h = rw)) screenResolutions)
       0.20 (''Exact screen resolution: '' @ toDigits 10 w @ ''x'' @ toDigits 10 h) st"

definition commonRatios :: "(real \<times> string \<times> real) list" where
  "commonRatios =
     [(16 / 9, ''16:9'', 0.01), (4 / 3, ''4:3'', 0.01), (3 / 2, ''3:2'', 0.01),
      (16 / 10, ''16:10'', 0.01)]"

text \<open>Detection 2; \<open>img.width / img.height\<close> with a zero height is Infinity or NaN and is
  within no tolerance.\<close>

definition detectAspectRatio :: "nat \<Rightarrow> nat \<Rightarrow> scoring \<Rightarrow> scoring" where
  "detectAspectRatio w h st =
     (case find (\<lambda>(ratio, name, tolerance). h \<noteq> 0 \<and> \<bar>real w / real h - ratio\<bar> < tolerance)
             commonRatios of
        None \<Rightarrow> st
      | Some (ratio, name, tolerance) \<Rightarrow>
          addSignal True 0.15 (''Standard '' @ name @ '' aspect ratio'') st)"

text \<open>Detection 3. The key \<open>`${r},${g},${b}`\<close> determines the three values read, and
  is modelled by them.\<close>

definition byteAt :: "8 word list \<Rightarrow> nat \<Rightarrow> 8 word option" where
  "byteAt d i = (if i < length d then Some (d ! i) else None)"

definition uniqueColors :: "8 word list \<Rightarrow> (8 word option \<times> 8 word option \<times> 8 word option) list \<times> nat" where
  "uniqueColors d =
     forStep 0 (length d) 4
       (\<lambda>i (colors, totalPixels).
          (List.insert (byteAt d i, byteAt d (i + 1), byteAt d (i + 2)) colors, totalPixels + 1))
       ([], 0)"

definition colorDiversity :: "8 word list \<Rightarrow> real option" where
  "colorDiversity d =
     (case uniqueColors d of (colors, totalPixels) \<Rightarrow>
        if totalPixels = 0 then None else Some (real (length colors) / real totalPixels))"

definition detectColorDiversity :: "8 word list \<Rightarrow> scoring \<Rightarrow> scoring" where
  "detectColorDiversity d st =
     (let cd = colorDiversity d in
      if nlt cd (Some 0.03) then
        addSignal True 0.25
          (''Extremely low color diversity: only '' @ toDigits 10 (nat \<lfloor>the cd * 100 + 1 / 2\<rfloor>)
             @ ''% unique colors'') st
      else if nlt cd (Some 0.06) then addSignal True 0.05 ''Limited color palette detected'' st
      else st)"

text \<open>Detection 4: the stride-5 loop over interior pixels.\<close>

definition edgeStrength :: "8 word list \<Rightarrow> nat \<Rightarrow> nat \<Rightarrow> nat \<Rightarrow> real option" where
  "edgeStrength d w x y =
     (let centerGray = gray d (int ((y * w + x) * 4));
          rightGray = gray d (int ((y * w + x + 1) * 4));
          bottomGray = gray d (int (((y + 1) * w + x) * 4))
      in dadd (map_option abs (dsub centerGray rightGray))
              (map_option abs (dsub centerGray bottomGray)))"

definition edgeScan :: "nat \<Rightarrow> nat \<Rightarrow> 8 word list \<Rightarrow> real option \<times> nat" where
  "edgeScan w h d =
     forStep 1 (h - 1) 5
       (\<lambda>y. forStep 1 (w - 1) 5
          (\<lambda>x (totalEdgeStrength, edgePixels).
             let e = edgeStrength d w x y
             in (dadd totalEdgeStrength e, if ngt e (Some 80) then edgePixels + 1 else edgePixels)))
       (Some 0, 0)"

text \<open>\<open>t / (img.width * img.height / 25)\<close> on doubles: the product, the division by 25
  and the quotient are each rounded. With a zero area the loop has not run and the
  quotient is \<open>0 / 0\<close>.\<close>

definition perSample :: "nat \<Rightarrow> nat \<Rightarrow> real option \<Rightarrow> real option" where
  "perSample w h t =
     (if w * h = 0 then None
      else map_option (\<lambda>v. fl (v / fl (fl (real (w * h)) / 25))) t)"

definition avgEdgeStrength :: "nat \<Rightarrow> nat \<Rightarrow> 8 word list \<Rightarrow> real option" where
  "avgEdgeStrength w h d = perSample w h (fst (edgeScan w h d))"

definition edgePixelRatio :: "nat \<Rightarrow> nat \<Rightarrow> 8 word list \<Rightarrow> real option" where
  "edgePixelRatio w h d = perSample w h (Some (real (snd (edgeScan w h d))))"

definition detectCrispEdges :: "nat \<Rightarrow> nat \<Rightarrow> 8 word list \<Rightarrow> scoring \<Rightarrow> scoring" where
  "detectCrispEdges w h d st =
     addSignal (ngt (avgEdgeStrength w h d) (Some 180)) 0.15
       ''Unusually crisp edges (text/UI-like)'' st"

definition detectSharpTransitions :: "nat \<Rightarrow> nat \<Rightarrow> 8 word list \<Rightarrow> scoring \<Rightarrow> scoring" where
  "detectSharpTransitions w h d st =
     addSignal (ngt (edgePixelRatio w h d) (Some 0.25)) 0.10
       ''High number of sharp transitions'' st"

text \<open>Detection 5. \<open>rnd k\<close> is the value of the \<open>k\<close>-th call of \<open>Math.random()\<close>; sample
  \<open>i\<close> draws \<open>x\<close> and then \<open>y\<close>.\<close>

definition blockGray :: "nat \<Rightarrow> 8 word list \<Rightarrow> int \<Rightarrow> int \<Rightarrow> nat \<Rightarrow> nat \<Rightarrow> real option" where
  "blockGray w d x y bx by = gray d (((y + int by) * int w + (x + int bx)) * 4)"

definition blockVariance :: "nat \<Rightarrow> 8 word list \<Rightarrow> int \<Rightarrow> int \<Rightarrow> real option" where
  "blockVariance w d x y =
     (let blockSize = 8;
          mean0 = foldl (\<lambda>mean by. foldl (\<lambda>mean bx. nadd mean (blockGray w d x y bx by))
                            mean [0..<blockSize]) (Some 0) [0..<blockSize];
          mean = map_option (\<lambda>t. t / real (blockSize * blockSize)) mean0;
          variance = foldl (\<lambda>variance by. foldl (\<lambda>variance bx.
                         nadd variance (map_option (\<lambda>t. t ^ 2) (nsub (blockGray w d x y bx by) mean)))
                            variance [0..<blockSize]) (Some 0) [0..<blockSize]
      in map_option (\<lambda>t. t / real (blockSize * blockSize)) variance)"

definition blockiness :: "nat \<Rightarrow> nat \<Rightarrow> 8 word list \<Rightarrow> (nat \<Rightarrow> real) \<Rightarrow> nat" where
  "blockiness w h d rnd =
     foldl (\<lambda>blockiness i.
        let x = \<lfloor>rnd (2 * i) * (real w - 10)\<rfloor>;
            y = \<lfloor>rnd (2 * i + 1) * (real h - 10)\<rfloor>
        in if nlt (blockVariance w d x y) (Some 5) then blockiness + 1 else blockiness)
       0 [0..<100]"

definition detectBlockiness :: "nat \<Rightarrow> nat \<Rightarrow> 8 word list \<Rightarrow> (nat \<Rightarrow> real) \<Rightarrow> scoring \<Rightarrow> scoring" where
  "detectBlockiness w h d rnd st =
     addSignal (real (blockiness w h d rnd) / 100 > 0.35) 0.10
       ''JPEG compression blockiness detected'' st"

fun joinWith :: "string \<Rightarrow> string list \<Rightarrow> string" where
  "joinWith sep [] = []"
| "joinWith sep [x] = x"
| "joinWith sep (x # y # ys) = x @ sep @ joinWith sep (y # ys)"

definition screenshotScore :: "nat \<Rightarrow> nat \<Rightarrow> 8 word list \<Rightarrow> (nat \<Rightarrow> real) \<Rightarrow> scoring" where
  "screenshotScore w h d rnd =
     detectBlockiness w h d rnd
       (detectSharpTransitions w h d
          (detectCrispEdges w h d
             (detectColorDiversity d
                (detectAspectRatio w h
                   (detectResolution w h \<lparr>detectionScore = 0, reasons = []\<rparr>)))))"

definition screenshotVerdict :: "scoring \<Rightarrow> verdict" where
  "screenshotVerdict st =
     \<lparr>isScreenshot = (detectionScore st > 0.70),
      verdictConfidence = min 1 (detectionScore st),
      reason = (if length (reasons st) > 0 then joinWith ''; '' (reasons st) else ''Unknown'')\<rparr>"

definition fallbackVerdict :: "string \<Rightarrow> verdict" where
  "fallbackVerdict msg = \<lparr>isScreenshot = False, verdictConfidence = 0, reason = msg\<rparr>"

text \<open>The promise is built with a resolver only. \<open>onerror\<close> resolves; inside \<open>onload\<close> the
  whole body is in a \<open>try\<close> whose \<open>catch\<close> resolves; the arithmetic of the analysis
  does not throw, so the only exceptions are those of the canvas calls.\<close>

definition detectScreenshot :: "browser \<Rightarrow> (nat \<Rightarrow> real) \<Rightarrow> verdict promise" where
  "detectScreenshot b rnd =
     (if \<not> imageLoads b then Resolved (fallbackVerdict ''Unable to load image'')
      else if \<not> context2d b then Resolved (fallbackVerdict ''Unable to analyze'')
      else case getImageData b (imgWidth b) (imgHeight b) of
             Inl e \<Rightarrow> Resolved (fallbackVerdict ''Error in analysis'')
           | Inr d \<Rightarrow>
               Resolved (screenshotVerdict (screenshotScore (imgWidth b) (imgHeight b) d rnd)))"

subsection \<open>Predicates of the statements\<close>

definition isHexDigit :: "char \<Rightarrow> bool" where
  "isHexDigit c = (c \<in> set ''0123456789abcdefABCDEF'')"

definition isHex16 :: "string \<Rightarrow> bool" where
  "isHex16 h = (length h = 16 \<and> list_all isHexDigit h)"

definition isLowerHexDigit :: "char \<Rightarrow> bool" where
  "isLowerHexDigit c = (c \<in> set ''0123456789abcdef'')"

text \<open>The statement of the corpus search: an entry is a candidate when it has a stored hash
  whose distance to the query is at most 20; the result is the first candidate of least
  distance.\<close>

definition withinModerate :: "string \<Rightarrow> artwork \<Rightarrow> bool" where
  "withinModerate q a =
     (case perceptual_hash a of None \<Rightarrow> False | Some h \<Rightarrow> calculateHammingDistance q h \<le> 20)"

definition distanceTo :: "string \<Rightarrow> artwork \<Rightarrow> enat" where
  "distanceTo q a = calculateHammingDistance q (the (perceptual_hash a))"

definition clampedConfidence :: "enat \<Rightarrow> real" where
  "clampedConfidence d = max 0 (min 1 (1 - real (the_enat d) / 64))"

definition bestMatch :: "string \<Rightarrow> artwork list \<Rightarrow> match option \<Rightarrow> bool" where
  "bestMatch q corpus r =
     (if list_ex (withinModerate q) corpus then
        (\<exists>pre a post. corpus = pre @ a # post \<and> withinModerate q a \<and>
           r = Some \<lparr>artwork = a, distance = distanceTo q a,
                     confidence = clampedConfidence (distanceTo q a)\<rparr> \<and>
           (\<forall>b \<in> set pre. withinModerate q b \<longrightarrow> distanceTo q a < distanceTo q b) \<and>
           (\<forall>b \<in> set post. withinModerate q b \<longrightarrow> distanceTo q a \<le> distanceTo q b))
      else r = None)"

text \<open>The bin of channel \<open>c\<close> (0 red, 1 green, 2 blue) of pixel \<open>j\<close>.\<close>

definition channelBin :: "8 word list \<Rightarrow> nat \<Rightarrow> nat \<Rightarrow> nat" where
  "channelBin pixels c j = unat (pixels ! (4 * j + c)) div 16"

text \<open>The interior positions of the stride-5 grid, in scan order: the pixels at which the
  fourth detection samples an edge strength.\<close>

definition interiorGrid :: "nat \<Rightarrow> nat \<Rightarrow> (nat \<times> nat) list" where
  "interiorGrid w h =
     concat (map (\<lambda>y. map (\<lambda>x. (x, y)) (filter (\<lambda>x. x mod 5 = 1) [1..<w - 1]))
                 (filter (\<lambda>y. y mod 5 = 1) [1..<h - 1]))"

text \<open>The edge strengths the fourth detection computes, one for each sampled position.\<close>

definition sampledEdges :: "nat \<Rightarrow> nat \<Rightarrow> 8 word list \<Rightarrow> real option list" where
  "sampledEdges w h d = map (\<lambda>(x, y). edgeStrength d w x y) (interiorGrid w h)"

text \<open>The number of bit positions at which two hashes differ as 64-bit values: the Hamming
  distance.\<close>

definition bitDistance :: "string \<Rightarrow> string \<Rightarrow> nat" where
  "bitDistance h1 h2 =
     length (filter (\<lambda>i. bit (digitsValue 16 h1) i \<noteq> bit (digitsValue 16 h2) i) [0..<64])"

section \<open>Rounding to a double\<close>

lemma fl_zero [simp]: "fl 0 = 0"
  by (simp add: fl_def)

lemma fl_error: "\<bar>fl x - x\<bar> \<le> \<bar>x\<bar> / 2 ^ 53"
proof (cases "x = 0")
  case True
  then show ?thesis by simp
next
  case False
  define e where "e = \<lfloor>log 2 \<bar>x\<bar>\<rfloor>"
  define u :: real where "u = 2 powr (of_int e - 52)"
  define m :: real where "m = x / u"
  define n where "n = \<lfloor>m\<rfloor>"
  define f where "f = m - of_int n"
  define r where "r = (if f < 1 / 2 \<or> (f = 1 / 2 \<and> even n) then of_int n else of_int n + 1 :: real)"
  have u0: "0 < u" by (simp add: u_def)
  have flx: "fl x = r * u"
    using False by (simp add: fl_def Let_def e_def u_def m_def n_def f_def r_def)
  have x: "x = m * u" using u0 by (simp add: m_def)
  have f01: "0 \<le> f" "f < 1" unfolding f_def n_def by linarith+
  have "\<bar>r - m\<bar> \<le> 1 / 2"
    using f01 by (auto simp: r_def f_def)
  then have "\<bar>r - m\<bar> * u \<le> (1 / 2) * u" using u0 by (intro mult_right_mono) simp_all
  moreover have "\<bar>fl x - x\<bar> = \<bar>r - m\<bar> * u"
  proof -
    have "fl x - x = r * u - m * u" unfolding flx using x by simp
    then have "fl x - x = (r - m) * u" by (simp add: algebra_simps)
    then show ?thesis using u0 by (simp add: abs_mult)
  qed
  ultimately have b: "\<bar>fl x - x\<bar> \<le> u / 2" by simp
  have ax: "0 < \<bar>x\<bar>" using False by simp
  have "of_int e \<le> log 2 \<bar>x\<bar>" unfolding e_def by simp
  then have "2 powr (of_int e) \<le> 2 powr (log 2 \<bar>x\<bar>)" by (simp add: powr_mono)
  also have "\<dots> = \<bar>x\<bar>" using ax by simp
  finally have pe: "2 powr (of_int e) \<le> \<bar>x\<bar>" .
  have "u = 2 powr (of_int e) / 2 ^ 52"
    by (simp add: u_def powr_diff powr_numeral [symmetric] del: powr_numeral)
  then have "u / 2 = 2 powr (of_int e) / 2 ^ 53" by simp
  also have "\<dots> \<le> \<bar>x\<bar> / 2 ^ 53" using pe by (simp add: divide_right_mono)
  finally show ?thesis using b by linarith
qed

lemma fl_interval:
  assumes "0 \<le> a" and "a \<le> x" and "x \<le> b"
  shows "a * 0.999 \<le> fl x" and "fl x \<le> b * 1.001"
proof -
  have x0: "0 \<le> x" using assms by simp
  have "\<bar>x\<bar> / 2 ^ 53 \<le> \<bar>x\<bar> * 0.001" by (simp add: field_simps)
  with fl_error [of x] have e: "\<bar>fl x - x\<bar> \<le> x / 1000" using x0 by simp
  have "fl x - x \<le> x / 1000" using e by (rule abs_le_D1)
  moreover have "- (fl x - x) \<le> x / 1000" using e by (rule abs_le_D2)
  ultimately have "x * 0.999 \<le> fl x" "fl x \<le> x * 1.001" by simp_all
  moreover have "a * 0.999 \<le> x * 0.999" "x * 1.001 \<le> b * 1.001" using assms by simp_all
  ultimately show "a * 0.999 \<le> fl x" and "fl x \<le> b * 1.001" by linarith+
qed

section \<open>Binary and hexadecimal expansions\<close>

lemma bitLength_le_iff: "bitLength n \<le> k \<longleftrightarrow> n < 2 ^ k"
proof (induction n arbitrary: k rule: bitLength.induct)
  case (1 n)
  show ?case
  proof (cases "n = 0")
    case True
    then show ?thesis by (simp add: bitLength.simps [of 0])
  next
    case False
    show ?thesis
    proof (cases k)
      case 0
      with False show ?thesis by (simp add: bitLength.simps [of n])
    next
      case (Suc k')
      have "bitLength (n div 2) \<le> k' \<longleftrightarrow> n div 2 < 2 ^ k'"
        using "1.IH" [OF False] .
      also have "\<dots> \<longleftrightarrow> n < 2 ^ Suc k'"
        by auto
      finally show ?thesis
        using False Suc by (simp add: bitLength.simps [of n])
    qed
  qed
qed

lemma length_toDigits2: "length (toDigits 2 n) = (if n = 0 then 1 else bitLength n)"
proof (induction n rule: bitLength.induct)
  case (1 n)
  show ?case
  proof (cases "n < 2")
    case True
    then have "n = 0 \<or> n = 1" by auto
    then show ?thesis
      by (auto simp: toDigits.simps [of 2 0] toDigits.simps [of 2 1] toDigits.simps [of 2 "Suc 0"]
          bitLength.simps [of 1] bitLength.simps [of "Suc 0"] bitLength.simps [of 0])
  next
    case False
    then have n0: "n \<noteq> 0" and d0: "n div 2 \<noteq> 0" by auto
    from "1.IH" [OF n0] d0 have "length (toDigits 2 (n div 2)) = bitLength (n div 2)" by simp
    with False n0 show ?thesis
      by (simp add: toDigits.simps [of 2 n] bitLength.simps [of n])
  qed
qed

lemma digitChar_0 [simp]: "digitChar 0 = CHR ''0''" by (simp add: digitChar_def)
lemma digitChar_1 [simp]: "digitChar (Suc 0) = CHR ''1''" by (simp add: digitChar_def)

lemma hd_toDigits2: "0 < n \<Longrightarrow> hd (toDigits 2 n) = CHR ''1''"
proof (induction n rule: bitLength.induct)
  case (1 n)
  show ?case
  proof (cases "n < 2")
    case True
    with "1.prems" have "n = Suc 0" by auto
    then show ?thesis by (simp add: toDigits.simps [of 2 "Suc 0"])
  next
    case False
    then have n0: "n \<noteq> 0" and d0: "0 < n div 2" by auto
    have ne: "toDigits 2 (n div 2) \<noteq> []"
      using length_toDigits2 [of "n div 2"] d0
      by (metis length_0_conv less_numeral_extra(3) bitLength_le_iff le_zero_eq power_0 less_one zero_neq_one)
    from "1.IH" [OF n0 d0] ne False show ?thesis
      by (simp add: toDigits.simps [of 2 n])
  qed
qed

lemma last_toDigits2: "last (toDigits 2 n) = digitChar (n mod 2)"
  by (simp add: toDigits.simps [of 2 n])

lemma toDigits2_pow: "toDigits 2 (2 ^ k) = CHR ''1'' # replicate k (CHR ''0'')"
proof (induction k)
  case 0
  show ?case by (simp add: toDigits.simps [of 2 "Suc 0"])
next
  case (Suc k)
  have "\<not> (2::nat) ^ Suc k < 2" by simp
  then have "toDigits 2 (2 ^ Suc k) = toDigits 2 (2 ^ k) @ [CHR ''0'']"
    by (simp add: toDigits.simps [of 2 "2 ^ Suc k"] del: power_Suc) (simp)
  with Suc show ?case by (simp add: replicate_append_same)
qed

lemma roundToDouble_big:
  assumes "53 < bitLength n"
  shows "\<exists>q'. (q' = n div 2 ^ (bitLength n - 53) \<or> q' = n div 2 ^ (bitLength n - 53) + 1) \<and>
          roundToDouble n =
            (if q' * 2 ^ (bitLength n - 53) \<ge> 2 ^ 1024 then None
             else Some (q' * 2 ^ (bitLength n - 53)))"
  using assms unfolding roundToDouble_def Let_def
  by (cases "n mod 2 ^ (bitLength n - 53) > 2 ^ (bitLength n - 53 - 1) \<or>
       (n mod 2 ^ (bitLength n - 53) = 2 ^ (bitLength n - 53 - 1) \<and> odd (n div 2 ^ (bitLength n - 53)))")
     (simp_all only: if_True if_False not_le [symmetric] simp_thms, blast+)

lemma n_lt_pow_bitLength: "n < 2 ^ bitLength n"
  using bitLength_le_iff [of n "bitLength n"] by simp

lemma roundToDouble_bound:
  assumes "n < 2 ^ 64"
  shows "\<exists>m. roundToDouble n = Some m \<and> m \<le> 2 ^ 64 \<and> (m < 2 ^ 53 \<or> even m)"
proof (cases "bitLength n \<le> 53")
  case True
  then have "n < 2 ^ 53" by (simp add: bitLength_le_iff)
  with True show ?thesis by (simp add: roundToDouble_def)
next
  case False
  define sh where "sh = bitLength n - 53"
  from assms have e64: "bitLength n \<le> 64" by (simp add: bitLength_le_iff)
  from False have sh1: "1 \<le> sh" and e: "bitLength n = 53 + sh" by (simp_all add: sh_def)
  from e64 e have sh11: "sh \<le> 11" by simp
  from False obtain q' where q': "q' = n div 2 ^ sh \<or> q' = n div 2 ^ sh + 1"
    and r: "roundToDouble n = (if q' * 2 ^ sh \<ge> 2 ^ 1024 then None else Some (q' * 2 ^ sh))"
    using roundToDouble_big [of n] unfolding sh_def by auto
  have "n < 2 ^ 53 * 2 ^ sh"
    using n_lt_pow_bitLength [of n] e by (simp add: power_add)
  then have "n div 2 ^ sh < 2 ^ 53"
    by (simp add: less_mult_imp_div_less)
  with q' have "q' \<le> 2 ^ 53" by auto
  then have "q' * 2 ^ sh \<le> 2 ^ 53 * 2 ^ sh" by (rule mult_le_mono1)
  also have "\<dots> = (2::nat) ^ (53 + sh)" by (simp add: power_add)
  also have "\<dots> \<le> 2 ^ 64" using sh11 by (intro power_increasing) simp_all
  finally have le: "q' * 2 ^ sh \<le> 2 ^ 64" .
  have "(2::nat) ^ 64 < 2 ^ 1024" by (rule power_strict_increasing) simp_all
  with le have "\<not> q' * 2 ^ sh \<ge> 2 ^ 1024" by linarith
  with r have "roundToDouble n = Some (q' * 2 ^ sh)" by simp
  moreover have "even (q' * 2 ^ sh)" using sh1 by simp
  ultimately show ?thesis using le by blast
qed

lemma isHexDigit_facts:
  assumes "isHexDigit c"
  shows "isRadixDigit 16 c" and "\<not> isStrWhiteSpaceChar c"
    and "c \<noteq> CHR ''+''" and "c \<noteq> CHR ''-''" and "c \<noteq> CHR ''x''" and "c \<noteq> CHR ''X''"
  using assms
  by (auto simp: isHexDigit_def isRadixDigit_def digitValue_def isStrWhiteSpaceChar_def)

lemma foldl_digits_bound:
  assumes "list_all (isRadixDigit R) Z"
  shows "foldl (\<lambda>acc c. acc * R + the (digitValue c)) a Z + 1 \<le> (a + 1) * R ^ length Z"
  using assms
proof (induction Z arbitrary: a)
  case Nil
  show ?case by simp
next
  case (Cons c Z)
  from Cons.prems have hc: "isRadixDigit R c" and rest: "list_all (isRadixDigit R) Z"
    by simp_all
  from hc have d: "the (digitValue c) < R"
    by (auto simp: isRadixDigit_def split: option.splits)
  have "foldl (\<lambda>acc c. acc * R + the (digitValue c)) (a * R + the (digitValue c)) Z + 1
        \<le> (a * R + the (digitValue c) + 1) * R ^ length Z"
    by (rule Cons.IH [OF rest])
  also have "\<dots> \<le> ((a + 1) * R) * R ^ length Z"
    using d by (intro mult_le_mono1) simp
  finally show ?case by (simp add: algebra_simps)
qed

lemma digitsValue_bound:
  "list_all (isRadixDigit R) Z \<Longrightarrow> digitsValue R Z < R ^ length Z"
  using foldl_digits_bound [of R Z 0] by (simp add: digitsValue_def)

lemma parseInt_hex16:
  assumes "isHex16 h"
  shows "parseInt h 16 = numberOfInt (int (digitsValue 16 h))"
proof -
  from assms obtain c0 c1 rest where h: "h = c0 # c1 # rest"
    by (cases h; cases "tl h") (auto simp: isHex16_def)
  from assms h have c0: "isHexDigit c0" and c1: "isHexDigit c1" and allh: "list_all isHexDigit h"
    by (auto simp: isHex16_def)
  have all16: "list_all (isRadixDigit 16) h"
    using allh by (auto simp: list_all_iff isHexDigit_facts(1))
  then have tw: "takeWhile (isRadixDigit 16) h = h"
    by (simp add: takeWhile_eq_all_conv list_all_iff)
  have dw: "dropWhile isStrWhiteSpaceChar h = h"
    using isHexDigit_facts(2) [OF c0] by (simp add: h)
  have sg: "hd h \<noteq> CHR ''-''" "hd h \<noteq> CHR ''+''"
    using isHexDigit_facts(3,4) [OF c0] by (simp_all add: h)
  have px: "take 2 h \<noteq> ''0x''" "take 2 h \<noteq> ''0X''"
    using isHexDigit_facts(5,6) [OF c1] by (simp_all add: h)
  have ne: "h \<noteq> []" by (simp add: h)
  show ?thesis
    using sg px ne by (simp add: parseInt_def Let_def dw tw)
qed

lemma digitsValue_hex16: "isHex16 h \<Longrightarrow> digitsValue 16 h < 2 ^ 64"
proof -
  assume a: "isHex16 h"
  then have "list_all (isRadixDigit 16) h"
    by (auto simp: isHex16_def list_all_iff isHexDigit_facts(1))
  from digitsValue_bound [OF this] a show ?thesis by (simp add: isHex16_def)
qed

lemma roundToDouble_0: "roundToDouble 0 = Some 0"
  by (simp add: roundToDouble_def bitLength.simps [of 0])

lemma numberOfInt_nat:
  assumes "roundToDouble v = Some m"
  shows "numberOfInt (int v) = Finite (int m)"
proof (cases "v = 0")
  case True
  with assms roundToDouble_0 have "m = 0" by simp
  with True roundToDouble_0 show ?thesis by (simp add: numberOfInt_def)
next
  case False
  with assms show ?thesis by (simp add: numberOfInt_def)
qed

lemma bin_hex16:
  assumes "isHex16 h"
  shows "\<exists>m. padStart 64 (CHR ''0'') (toStringRadix (parseInt h 16) 2) = padStart 64 (CHR ''0'') (toDigits 2 m)
           \<and> m \<le> 2 ^ 64 \<and> (m < 2 ^ 53 \<or> even m)"
proof -
  from roundToDouble_bound [OF digitsValue_hex16 [OF assms]]
  obtain m where m: "roundToDouble (digitsValue 16 h) = Some m" "m \<le> 2 ^ 64" "m < 2 ^ 53 \<or> even m"
    by blast
  have "parseInt h 16 = Finite (int m)"
    using parseInt_hex16 [OF assms] numberOfInt_nat [OF m(1)] by simp
  then have "toStringRadix (parseInt h 16) 2 = toDigits 2 m"
    by (simp add: toStringRadix_def)
  with m show ?thesis by auto
qed

lemma foldl_count:
  "foldl (\<lambda>d i. if P i then d + 1 else d) (a::nat) xs = a + length (filter P xs)"
  by (induction xs arbitrary: a) simp_all

lemma length_toDigits2_bounds:
  assumes "m < 2 ^ 64"
  shows "1 \<le> length (toDigits 2 m)" and "length (toDigits 2 m) \<le> 64"
proof -
  from assms have b: "bitLength m \<le> 64" by (simp add: bitLength_le_iff)
  have "m \<noteq> 0 \<Longrightarrow> 1 \<le> bitLength m"
    using bitLength_le_iff [of m 0] by (cases "bitLength m") auto
  then show "1 \<le> length (toDigits 2 m)" by (simp add: length_toDigits2)
  from b show "length (toDigits 2 m) \<le> 64" by (simp add: length_toDigits2)
qed

lemma length_bin_small:
  "m < 2 ^ 64 \<Longrightarrow> length (padStart 64 (CHR ''0'') (toDigits 2 m)) = 64"
  using length_toDigits2_bounds(2) [of m] by (simp add: padStart_def)

lemma bin_top: "padStart 64 (CHR ''0'') (toDigits 2 (2 ^ 64)) = CHR ''1'' # replicate 64 (CHR ''0'')"
  unfolding padStart_def toDigits2_pow by simp

lemma bin_agree:
  assumes m: "m < 2 ^ 64" and r: "m < 2 ^ 53 \<or> even m"
  shows "\<exists>i<64. charAt (padStart 64 (CHR ''0'') (toDigits 2 m)) i
               = charAt (CHR ''1'' # replicate 64 (CHR ''0'')) i"
proof -
  define ds where "ds = toDigits 2 m"
  define L where "L = length ds"
  have L: "1 \<le> L" "L \<le> 64"
    using length_toDigits2_bounds [OF m] by (simp_all add: L_def ds_def)
  have bin: "padStart 64 (CHR ''0'') ds = replicate (64 - L) (CHR ''0'') @ ds"
    by (simp add: padStart_def L_def)
  have len: "length (padStart 64 (CHR ''0'') ds) = 64"
    using L by (simp add: bin) (simp add: L_def)
  consider "L = 64" | "L \<le> 62" | "L = 63" using L by linarith
  then show ?thesis
  proof cases
    case 1
    then have "\<not> bitLength m \<le> 63"
      using L by (auto simp: L_def ds_def length_toDigits2 split: if_splits)
    then have "0 < m" by (auto simp: bitLength_le_iff intro: Nat.gr0I)
    then have "hd ds = CHR ''1''" by (simp add: ds_def hd_toDigits2)
    moreover have "ds \<noteq> []" using L by (auto simp: L_def)
    ultimately have "padStart 64 (CHR ''0'') ds ! 0 = CHR ''1''"
      using 1 by (simp add: bin hd_conv_nth)
    then have "charAt (padStart 64 (CHR ''0'') ds) 0 = charAt (CHR ''1'' # replicate 64 (CHR ''0'')) 0"
      using len by (simp add: charAt_def)
    then show ?thesis unfolding ds_def by (intro exI [of _ 0]) simp
  next
    case 2
    then have "1 < 64 - L" by simp
    then have "padStart 64 (CHR ''0'') ds ! 1 = CHR ''0''"
      by (simp add: bin nth_append)
    then have "charAt (padStart 64 (CHR ''0'') ds) 1 = charAt (CHR ''1'' # replicate 64 (CHR ''0'')) 1"
      using len by (simp add: charAt_def)
    then show ?thesis unfolding ds_def by (intro exI [of _ 1]) simp
  next
    case 3
    then have bl: "m \<noteq> 0 \<and> bitLength m = 63"
      by (auto simp: L_def ds_def length_toDigits2 split: if_splits)
    then have "\<not> bitLength m \<le> 53" by simp
    then have "\<not> m < 2 ^ 53" by (simp add: bitLength_le_iff)
    with r have "even m" by simp
    then have "last ds = CHR ''0''" by (simp add: ds_def last_toDigits2)
    moreover have "ds \<noteq> []" using L by (auto simp: L_def)
    ultimately have "ds ! 62 = CHR ''0''"
      using 3 by (simp add: last_conv_nth L_def)
    then have "padStart 64 (CHR ''0'') ds ! 63 = CHR ''0''"
      using 3 by (simp add: bin nth_append)
    then have "charAt (padStart 64 (CHR ''0'') ds) 63 = charAt (CHR ''1'' # replicate 64 (CHR ''0'')) 63"
      using len by (simp add: charAt_def)
    then show ?thesis unfolding ds_def by (intro exI [of _ 63]) simp
  qed
qed

lemma count_diff_le:
  assumes a: "m1 \<le> 2 ^ 64" "m1 < 2 ^ 53 \<or> even m1" and b: "m2 \<le> 2 ^ 64" "m2 < 2 ^ 53 \<or> even m2"
  defines "bin1 \<equiv> padStart 64 (CHR ''0'') (toDigits 2 m1)"
    and "bin2 \<equiv> padStart 64 (CHR ''0'') (toDigits 2 m2)"
  shows "length (filter (\<lambda>i. charAt bin1 i \<noteq> charAt bin2 i) [0..<length bin1]) \<le> 64"
proof (cases "m1 < 2 ^ 64")
  case True
  then have "length bin1 = 64" by (simp add: bin1_def length_bin_small)
  then show ?thesis
    using length_filter_le [of "\<lambda>i. charAt bin1 i \<noteq> charAt bin2 i" "[0..<length bin1]"] by simp
next
  case False
  with a have m1: "m1 = 2 ^ 64" by simp
  have b1: "bin1 = CHR ''1'' # replicate 64 (CHR ''0'')" unfolding bin1_def m1 by (rule bin_top)
  show ?thesis
  proof (cases "m2 < 2 ^ 64")
    case True
    from bin_agree [OF True b(2)] obtain i where i: "i < 64" "charAt bin2 i = charAt bin1 i"
      by (auto simp: b1 bin2_def)
    then have "i \<in> set [0..<length bin1]" "\<not> charAt bin1 i \<noteq> charAt bin2 i"
      by (simp_all add: b1)
    then have "length (filter (\<lambda>i. charAt bin1 i \<noteq> charAt bin2 i) [0..<length bin1])
          < length [0..<length bin1]"
      by (rule length_filter_less)
    then show ?thesis by (simp add: b1)
  next
    case False
    with b have m2: "m2 = 2 ^ 64" by simp
    have "bin2 = bin1" unfolding bin2_def m2 b1 by (rule bin_top)
    then show ?thesis by simp
  qed
qed

section \<open>Loops as folds\<close>

lemma mod_step_between:
  assumes "i < j" and "j < i + step"
  shows "j mod step \<noteq> i mod (step::nat)"
proof
  assume eq: "j mod step = i mod step"
  with assms have "step dvd j - i" by (simp add: mod_eq_dvd_iff_nat)
  moreover have "0 < j - i" using assms by simp
  ultimately have "step \<le> j - i" by (simp add: dvd_imp_le)
  with assms show False by simp
qed

lemma filter_stride_skip:
  assumes "0 < step"
  shows "filter (\<lambda>j. j mod step = i mod step) [Suc i..<n]
       = filter (\<lambda>j. j mod step = i mod step) [i + step..<n]"
proof (cases "i + step \<le> n")
  case True
  obtain k where k: "n = (i + step) + k" using True by (metis le_Suc_ex)
  have "Suc i \<le> i + step" using assms by simp
  then have "[Suc i..<n] = [Suc i..<i + step] @ [i + step..<n]"
    unfolding k by (rule upt_add_eq_append)
  moreover have "\<forall>x \<in> set [Suc i..<i + step]. x mod step \<noteq> i mod step"
    by (simp add: mod_step_between)
  then have "filter (\<lambda>j. j mod step = i mod step) [Suc i..<i + step] = []"
    by (simp add: filter_empty_conv)
  ultimately show ?thesis by simp
next
  case False
  have "\<forall>x \<in> set [Suc i..<n]. x mod step \<noteq> i mod step"
  proof
    fix x assume "x \<in> set [Suc i..<n]"
    with False have "i < x" "x < i + step" by simp_all
    then show "x mod step \<noteq> i mod step" by (rule mod_step_between)
  qed
  then have "filter (\<lambda>j. j mod step = i mod step) [Suc i..<n] = []"
    by (simp add: filter_empty_conv)
  with False show ?thesis by simp
qed

lemma forStep_filter:
  "0 < step \<Longrightarrow>
   forStep i n step body s = foldl (\<lambda>s j. body j s) s (filter (\<lambda>j. j mod step = i mod step) [i..<n])"
proof (induction i n step body s rule: forStep.induct)
  case (1 i n step body s)
  show ?case
  proof (cases "i < n")
    case True
    have "forStep i n step body s = forStep (i + step) n step body (body i s)"
      using True "1.prems" by (simp add: forStep.simps [of i])
    also have "\<dots> = foldl (\<lambda>s j. body j s) (body i s)
                      (filter (\<lambda>j. j mod step = (i + step) mod step) [i + step..<n])"
      using "1.IH" True "1.prems" by simp
    also have "filter (\<lambda>j. j mod step = (i + step) mod step) [i + step..<n]
             = filter (\<lambda>j. j mod step = i mod step) [Suc i..<n]"
      using filter_stride_skip [OF "1.prems", of i n] by simp
    finally show ?thesis using True by (simp add: upt_conv_Cons)
  next
    case False
    then show ?thesis by (simp add: forStep.simps [of i])
  qed
qed

lemma filter_mod4: "filter (\<lambda>j. j mod 4 = 0) [0..<4 * n] = map (\<lambda>k. 4 * k) [0..<n]"
proof (induction n)
  case 0
  show ?case by simp
next
  case (Suc n)
  have "[0..<4 * n + 4] = [0..<4 * n] @ [4 * n..<4 * n + 4]"
    by (rule upt_add_eq_append) simp
  moreover have "[4 * n..<4 * n + 4] = [4 * n, 4 * n + 1, 4 * n + 2, 4 * n + 3]"
    by (simp add: upt_conv_Cons)
  moreover have "4 * Suc n = 4 * n + 4" by simp
  ultimately have "[0..<4 * Suc n] = [0..<4 * n] @ [4 * n, 4 * n + 1, 4 * n + 2, 4 * n + 3]"
    by (simp only:)
  then show ?case using Suc by (simp add: mod_Suc)
qed

lemma forStep4:
  "forStep 0 (4 * n) 4 body s = foldl (\<lambda>s k. body (4 * k) s) s [0..<n]"
  by (simp add: forStep_filter filter_mod4 foldl_map)

lemma foldl_snoc: "foldl (\<lambda>acc x. acc @ [f x]) acc xs = acc @ map f xs"
  by (induction xs arbitrary: acc) simp_all

lemma foldl_append_concat: "foldl (\<lambda>acc x. acc @ g x) acc xs = acc @ concat (map g xs)"
  by (induction xs arbitrary: acc) simp_all

lemma foldl_invariant:
  assumes "P a" and "\<And>acc x. x \<in> set xs \<Longrightarrow> P acc \<Longrightarrow> P (f acc x)"
  shows "P (foldl f a xs)"
  using assms by (induction xs arbitrary: a) simp_all

section \<open>The hash of a 32 by 32 buffer\<close>

lemma rd_in: "i < length d \<Longrightarrow> rd d (int i) = Some (real (unat (d ! i)))"
  by (simp add: rd_def)

lemma gray_in:
  assumes "i + 2 < length d"
  shows "gray d (int i) =
     Some (fl (fl (fl (fl 0.299 * real (unat (d ! i))) + fl (fl 0.587 * real (unat (d ! (i + 1)))))
               + fl (fl 0.114 * real (unat (d ! (i + 2))))))"
proof -
  have "rd d (int i) = Some (real (unat (d ! i)))" using assms by (simp add: rd_in)
  moreover have "rd d (int i + 1) = Some (real (unat (d ! (i + 1))))"
    using assms rd_in [of "i + 1" d] by (simp add: add.commute)
  moreover have "rd d (int i + 2) = Some (real (unat (d ! (i + 2))))"
    using assms rd_in [of "i + 2" d] by (simp add: add.commute)
  ultimately show ?thesis by (simp add: gray_def dadd_def dmul_def nadd_def nmul_def)
qed

lemma grayscaleOf_map:
  assumes "length pixels = 4 * n"
  shows "grayscaleOf pixels = map (\<lambda>k. gray pixels (int (4 * k))) [0..<n]"
  unfolding grayscaleOf_def assms by (simp add: forStep4 foldl_snoc)

lemma grayscaleOf_defined:
  assumes "length pixels = 4 * n"
  shows "length (grayscaleOf pixels) = n" and "\<forall>g \<in> set (grayscaleOf pixels). g \<noteq> None"
proof -
  show "length (grayscaleOf pixels) = n" by (simp add: grayscaleOf_map [OF assms])
  show "\<forall>g \<in> set (grayscaleOf pixels). g \<noteq> None"
  proof
    fix g assume "g \<in> set (grayscaleOf pixels)"
    then obtain k where k: "k < n" "g = gray pixels (int (4 * k))"
      by (auto simp: grayscaleOf_map [OF assms])
    then have "4 * k + 2 < length pixels" using assms by simp
    from gray_in [OF this] k show "g \<noteq> None" by simp
  qed
qed

lemma nadd_defined: "a \<noteq> None \<Longrightarrow> b \<noteq> None \<Longrightarrow> nadd a b \<noteq> None"
  by (auto simp: nadd_def)

lemma nmul_defined: "a \<noteq> None \<Longrightarrow> b \<noteq> None \<Longrightarrow> nmul a b \<noteq> None"
  by (auto simp: nmul_def)

lemma dctTerm_defined:
  assumes "sz * sz \<le> length grayscale" and "\<forall>g \<in> set grayscale. g \<noteq> None"
    and "x < sz" and "y < sz"
  shows "dctTerm grayscale sz u v x y \<noteq> None"
proof -
  have "y * sz + x < sz * sz"
  proof -
    have "y * sz + x < y * sz + sz" using assms(3) by simp
    also have "\<dots> = Suc y * sz" by simp
    also have "\<dots> \<le> sz * sz" using assms(4) by (metis Suc_leI mult_le_mono1)
    finally show ?thesis .
  qed
  with assms(1) have lt: "y * sz + x < length grayscale" by simp
  then have "pixelAt grayscale (y * sz + x) \<noteq> None"
    using assms(2) by (simp add: pixelAt_def)
  then show ?thesis by (simp add: dctTerm_def nmul_defined)
qed

lemma dctSum_defined:
  assumes "sz * sz \<le> length grayscale" and "\<forall>g \<in> set grayscale. g \<noteq> None"
  shows "dctSum grayscale sz u v \<noteq> None"
  unfolding dctSum_def
proof (rule foldl_invariant [where P = "\<lambda>a. a \<noteq> None"])
  show "Some 0 \<noteq> (None :: real option)" by simp
next
  fix acc :: "real option" and x
  assume x: "x \<in> set [0..<sz]" and acc: "acc \<noteq> None"
  show "foldl (\<lambda>acc y. nadd acc (dctTerm grayscale sz u v x y)) acc [0..<sz] \<noteq> None"
  proof (rule foldl_invariant [where P = "\<lambda>a. a \<noteq> None"])
    show "acc \<noteq> None" by (rule acc)
  next
    fix a :: "real option" and y
    assume "y \<in> set [0..<sz]" and a: "a \<noteq> None"
    then have "dctTerm grayscale sz u v x y \<noteq> None"
      using x dctTerm_defined [OF assms] by simp
    with a show "nadd a (dctTerm grayscale sz u v x y) \<noteq> None" by (rule nadd_defined)
  qed
qed

lemma dctCoeffs_concat:
  "dctCoeffs grayscale sz = concat (map (\<lambda>u. map (dctCoeff grayscale sz u) [0..<8]) [0..<8])"
  unfolding dctCoeffs_def by (simp only: foldl_snoc foldl_append_concat append_Nil)

lemma length_dctCoeffs: "length (dctCoeffs grayscale sz) = 64"
  by (simp add: dctCoeffs_concat length_concat comp_def sum_list_triv)

lemma dctCoeffs_defined:
  assumes "sz * sz \<le> length grayscale" and "\<forall>g \<in> set grayscale. g \<noteq> None"
  shows "\<forall>c \<in> set (dctCoeffs grayscale sz). c \<noteq> None"
proof -
  have "dctCoeff grayscale sz u v \<noteq> None" for u v
    unfolding dctCoeff_def Let_def
    by (intro nmul_defined dctSum_defined [OF assms]) simp_all
  then show ?thesis by (auto simp: dctCoeffs_concat)
qed

lemma sortNumbers_defined:
  assumes "\<forall>c \<in> set xs. c \<noteq> None"
  shows "sortNumbers xs = map Some (sort (map the xs))"
  using assms by (simp add: sortNumbers_def list_all_iff)

lemma medianCoeff_defined:
  assumes "length cs = 64" and "\<forall>c \<in> set cs. c \<noteq> None"
  shows "medianCoeff cs = Some (sort (map the (drop 1 cs)) ! 32)"
proof -
  have "\<forall>c \<in> set (drop 1 cs). c \<noteq> None" using assms(2) by (auto dest: in_set_dropD)
  then have "sortNumbers (drop 1 cs) = map Some (sort (map the (drop 1 cs)))"
    by (rule sortNumbers_defined)
  then show ?thesis using assms(1) by (simp add: medianCoeff_def pixelAt_def)
qed

lemma hashBits_map:
  "hashBits cs = map (\<lambda>c. if ngt c (medianCoeff cs) then CHR ''1'' else CHR ''0'') cs"
proof -
  have "hashBits cs = map (\<lambda>i. if ngt (cs ! i) (medianCoeff cs) then CHR ''1'' else CHR ''0'')
                        [0..<length cs]"
    by (simp add: hashBits_def foldl_snoc)
  also have "\<dots> = map (\<lambda>c. if ngt c (medianCoeff cs) then CHR ''1'' else CHR ''0'')
                     (map (nth cs) [0..<length cs])"
    by simp
  finally show ?thesis by (simp only: map_nth)
qed

lemma drop1_nth: "drop 1 cs = map (nth cs) [1..<length cs]"
proof -
  have "drop 1 cs = drop 1 (map (nth cs) [0..<length cs])" by (simp only: map_nth)
  also have "\<dots> = map (nth cs) (drop 1 [0..<length cs])" by (simp only: drop_map)
  finally show ?thesis by (simp add: drop_upt)
qed

lemma nth_concat_grid:
  assumes "i < m" and "j < n"
  shows "concat (map (\<lambda>u. map (f u) [0..<n]) [0..<m]) ! (n * i + j) = f i j"
  using assms(1)
proof (induction m)
  case 0
  then show ?case by simp
next
  case (Suc m)
  have len: "length (concat (map (\<lambda>u. map (f u) [0..<n]) [0..<m])) = n * m"
    by (simp add: length_concat comp_def sum_list_triv)
  show ?case
  proof (cases "i < m")
    case True
    then have "n * i + j < n * m"
    proof -
      have "n * i + j < n * i + n" using assms(2) by simp
      also have "\<dots> = n * Suc i" by simp
      also have "\<dots> \<le> n * m" using True by (metis Suc_leI mult_le_mono2)
      finally show ?thesis .
    qed
    with Suc.IH [OF True] len show ?thesis by (simp add: nth_append)
  next
    case False
    with Suc.prems have "i = m" by simp
    with len assms(2) show ?thesis by (simp add: nth_append)
  qed
qed

lemma length_filter_mset_eq:
  assumes "mset xs = mset ys"
  shows "length (filter P xs) = length (filter P ys)"
proof -
  have "mset (filter P xs) = mset (filter P ys)" using assms by simp
  then show ?thesis by (metis size_mset)
qed

lemma above_median_count:
  fixes sorted :: "real list"
  assumes "sorted_wrt (\<le>) sorted" and "length sorted = 63"
  shows "length (filter (\<lambda>v. v > sorted ! 32) sorted) \<le> 30"
proof -
  have "\<forall>x \<in> set (take 33 sorted). \<not> x > sorted ! 32"
  proof
    fix x assume "x \<in> set (take 33 sorted)"
    then obtain i where i: "i < 33" "x = sorted ! i"
      using assms(2) by (auto simp: in_set_conv_nth)
    then have "sorted ! i \<le> sorted ! 32"
      using assms by (intro sorted_nth_mono) simp_all
    with i show "\<not> x > sorted ! 32" by simp
  qed
  then have "filter (\<lambda>v. v > sorted ! 32) (take 33 sorted) = []"
    by (simp add: filter_empty_conv)
  moreover have "sorted = take 33 sorted @ drop 33 sorted" by simp
  ultimately have "filter (\<lambda>v. v > sorted ! 32) sorted = filter (\<lambda>v. v > sorted ! 32) (drop 33 sorted)"
    by (metis filter_append append_Nil)
  moreover have "length (filter (\<lambda>v. v > sorted ! 32) (drop 33 sorted)) \<le> length (drop 33 sorted)"
    by (rule length_filter_le)
  ultimately show ?thesis using assms(2) by simp
qed

lemma ones_bound:
  assumes len: "length cs = 64" and def: "\<forall>c \<in> set cs. c \<noteq> None"
  shows "length (filter (\<lambda>c. c = CHR ''1'') (hashBits cs)) \<le> 31"
proof -
  define sorted where "sorted = sort (map the (drop 1 cs))"
  define t where "t = sorted ! 32"
  have med: "medianCoeff cs = Some t"
    unfolding t_def sorted_def using len def by (rule medianCoeff_defined)
  have so: "sorted_wrt (\<le>) sorted" and ls: "length sorted = 63"
    using len by (simp_all add: sorted_def)
  have "filter (\<lambda>c. c = CHR ''1'') (hashBits cs)
        = map (\<lambda>c. if ngt c (Some t) then CHR ''1'' else CHR ''0'') (filter (\<lambda>c. ngt c (Some t)) cs)"
    by (simp add: hashBits_map med filter_map comp_def)
  then have eq: "length (filter (\<lambda>c. c = CHR ''1'') (hashBits cs))
        = length (filter (\<lambda>c. ngt c (Some t)) cs)"
    by simp
  obtain c0 rest where cs: "cs = c0 # rest" using len by (cases cs) auto
  have rest: "rest = drop 1 cs" by (simp add: cs)
  have "filter (\<lambda>c. ngt c (Some t)) rest = filter ((\<lambda>v. v > t) \<circ> the) rest"
    using def by (intro filter_cong) (auto simp: cs ngt_def)
  then have "length (filter (\<lambda>c. ngt c (Some t)) rest)
           = length (filter (\<lambda>v. v > t) (map the rest))"
    by (simp add: filter_map)
  also have "\<dots> = length (filter (\<lambda>v. v > t) sorted)"
    by (rule length_filter_mset_eq) (simp add: sorted_def rest)
  also have "\<dots> \<le> 30"
    unfolding t_def using so ls by (rule above_median_count)
  finally have "length (filter (\<lambda>c. ngt c (Some t)) rest) \<le> 30" .
  then have "length (filter (\<lambda>c. ngt c (Some t)) cs) \<le> 31" by (simp add: cs)
  with eq show ?thesis by simp
qed

lemma hashBits_chars: "set (hashBits cs) \<subseteq> {CHR ''0'', CHR ''1''}"
  by (auto simp: hashBits_map)

lemma digitValue_bit [simp]:
  "digitValue (CHR ''0'') = Some 0" "digitValue (CHR ''1'') = Some 1"
  by (simp_all add: digitValue_def)

lemma bits_value_bound:
  assumes "set bs \<subseteq> {CHR ''0'', CHR ''1''}"
  shows "foldl (\<lambda>acc c. acc * 2 + the (digitValue c)) a bs
           + 2 ^ (length bs - length (filter (\<lambda>c. c = CHR ''1'') bs))
         \<le> (a + 1) * 2 ^ length bs"
  using assms
proof (induction bs arbitrary: a)
  case Nil
  show ?case by simp
next
  case (Cons c bs)
  let ?f = "\<lambda>acc c. acc * 2 + the (digitValue c)"
  let ?ones = "length (filter (\<lambda>c. c = CHR ''1'') bs)"
  from Cons.prems have sub: "set bs \<subseteq> {CHR ''0'', CHR ''1''}" and c: "c = CHR ''0'' \<or> c = CHR ''1''"
    by auto
  have ol: "?ones \<le> length bs" by (rule length_filter_le)
  from c show ?case
  proof
    assume c1: "c = CHR ''1''"
    have "foldl ?f (a * 2 + 1) bs + 2 ^ (length bs - ?ones) \<le> (a * 2 + 1 + 1) * 2 ^ length bs"
      by (rule Cons.IH [OF sub])
    then show ?thesis using c1 by (simp add: algebra_simps)
  next
    assume c0: "c = CHR ''0''"
    have ih: "foldl ?f (a * 2) bs + 2 ^ (length bs - ?ones) \<le> (a * 2 + 1) * 2 ^ length bs"
      by (rule Cons.IH [OF sub])
    have "(2::nat) ^ (length bs - ?ones) \<le> 2 ^ length bs"
      by (rule power_increasing) simp_all
    with ih have "(foldl ?f (a * 2) bs + 2 ^ (length bs - ?ones)) + 2 ^ (length bs - ?ones)
        \<le> (a * 2 + 1) * 2 ^ length bs + 2 ^ length bs"
      by (rule add_mono)
    then have "foldl ?f (a * 2) bs + 2 * 2 ^ (length bs - ?ones) \<le> (a * 2 + 2) * 2 ^ length bs"
      by (simp add: algebra_simps)
    moreover have "Suc (length bs) - ?ones = Suc (length bs - ?ones)"
      by (rule Suc_diff_le) (rule length_filter_le)
    ultimately show ?thesis using c0 by (simp add: algebra_simps)
  qed
qed

lemma roundToDouble_below:
  assumes "n + 2 ^ 33 \<le> 2 ^ 64"
  shows "\<exists>m. roundToDouble n = Some m \<and> m < 2 ^ 64"
proof (cases "bitLength n \<le> 53")
  case True
  with assms show ?thesis by (simp add: roundToDouble_def)
next
  case False
  define sh where "sh = bitLength n - 53"
  from assms have "n < 2 ^ 64" by simp
  then have e64: "bitLength n \<le> 64" by (simp add: bitLength_le_iff)
  with False have sh11: "sh \<le> 11" by (simp add: sh_def)
  from False obtain q' where q': "q' = n div 2 ^ sh \<or> q' = n div 2 ^ sh + 1"
    and r: "roundToDouble n = (if q' * 2 ^ sh \<ge> 2 ^ 1024 then None else Some (q' * 2 ^ sh))"
    using roundToDouble_big [of n] unfolding sh_def by auto
  have "q' * 2 ^ sh \<le> (n div 2 ^ sh + 1) * 2 ^ sh"
    using q' by (intro mult_le_mono1) auto
  also have "\<dots> = n div 2 ^ sh * 2 ^ sh + 2 ^ sh" by (simp add: algebra_simps)
  also have "\<dots> \<le> n + 2 ^ sh" by simp
  also have "\<dots> \<le> n + 2 ^ 11"
    using power_increasing [OF sh11, of "2::nat"] by simp
  also have "\<dots> < n + 2 ^ 33" by simp
  finally have lt: "q' * 2 ^ sh < 2 ^ 64" using assms by simp
  have "(2::nat) ^ 64 < 2 ^ 1024" by (rule power_strict_increasing) simp_all
  with lt have "\<not> q' * 2 ^ sh \<ge> 2 ^ 1024" by linarith
  with r lt show ?thesis by simp
qed

lemma parseInt_bits:
  assumes "bs \<noteq> []" and "set bs \<subseteq> {CHR ''0'', CHR ''1''}"
  shows "parseInt bs 2 = numberOfInt (int (digitsValue 2 bs))"
proof -
  from assms obtain c rest where bs: "bs = c # rest" and c: "c = CHR ''0'' \<or> c = CHR ''1''"
    by (cases bs) auto
  have "\<forall>x \<in> set bs. isRadixDigit 2 x"
    using assms(2) by (auto simp: isRadixDigit_def)
  then have tw: "takeWhile (isRadixDigit 2) bs = bs"
    by (simp add: takeWhile_eq_all_conv)
  have dw: "dropWhile isStrWhiteSpaceChar bs = bs"
    using c by (auto simp: bs isStrWhiteSpaceChar_def)
  have sg: "hd bs \<noteq> CHR ''-''" "hd bs \<noteq> CHR ''+''" using c by (auto simp: bs)
  show ?thesis
    using sg assms(1) by (simp add: parseInt_def Let_def dw tw)
qed

lemma digitChar_lower_hex: "d < 16 \<Longrightarrow> isLowerHexDigit (digitChar d)"
proof -
  assume "d < 16"
  then have "d \<in> set [0, 1, 2, 3, 4, 5, 6, 7, 8, 9, 10, 11, 12, 13, 14, 15]"
    by (simp, presburger)
  moreover have "list_all (\<lambda>d. isLowerHexDigit (digitChar d))
      [0, 1, 2, 3, 4, 5, 6, 7, 8, 9, 10, 11, 12, 13, 14, 15]"
    by (simp add: digitChar_def isLowerHexDigit_def)
  ultimately show "isLowerHexDigit (digitChar d)" unfolding list_all_iff by blast
qed

lemma toDigits16_chars: "list_all isLowerHexDigit (toDigits 16 n)"
proof (induction "16::nat" n rule: toDigits.induct)
  case (1 n)
  show ?case
  proof (cases "n < 16")
    case True
    then show ?thesis by (simp add: toDigits.simps [of 16 n] digitChar_lower_hex)
  next
    case False
    with "1.hyps" have "list_all isLowerHexDigit (toDigits 16 (n div 16))" by simp
    with False show ?thesis by (simp add: toDigits.simps [of 16 n] digitChar_lower_hex)
  qed
qed

lemma length_toDigits16: "0 < k \<Longrightarrow> n < 16 ^ k \<Longrightarrow> length (toDigits 16 n) \<le> k"
proof (induction k arbitrary: n)
  case 0
  then show ?case by simp
next
  case (Suc k)
  show ?case
  proof (cases "n < 16")
    case True
    then show ?thesis by (simp add: toDigits.simps [of 16 n])
  next
    case False
    with Suc.prems have k0: "0 < k" by (cases k) auto
    from Suc.prems have "n div 16 < 16 ^ k"
      by (simp add: less_mult_imp_div_less mult.commute)
    from Suc.IH [OF k0 this] False show ?thesis by (simp add: toDigits.simps [of 16 n])
  qed
qed

lemma hash_of_coeffs:
  assumes len: "length cs = 64" and def: "\<forall>c \<in> set cs. c \<noteq> None"
  defines "h \<equiv> padStart 16 (CHR ''0'') (toStringRadix (parseInt (hashBits cs) 2) 16)"
  shows "length h = 16 \<and> list_all isLowerHexDigit h"
proof -
  let ?bs = "hashBits cs"
  have lb: "length ?bs = 64" using len by (simp add: hashBits_map)
  then have ne: "?bs \<noteq> []" by auto
  have ones: "length (filter (\<lambda>c. c = CHR ''1'') ?bs) \<le> 31" using len def by (rule ones_bound)
  have "digitsValue 2 ?bs + 2 ^ (64 - length (filter (\<lambda>c. c = CHR ''1'') ?bs)) \<le> 2 ^ 64"
    using bits_value_bound [where bs = "hashBits cs" and a = 0, OF hashBits_chars] lb
    by (simp add: digitsValue_def)
  moreover have "(2::nat) ^ 33 \<le> 2 ^ (64 - length (filter (\<lambda>c. c = CHR ''1'') ?bs))"
    using ones by (intro power_increasing) simp_all
  ultimately have "digitsValue 2 ?bs + 2 ^ 33 \<le> 2 ^ 64" by linarith
  from roundToDouble_below [OF this] obtain m
    where m: "roundToDouble (digitsValue 2 ?bs) = Some m" "m < 2 ^ 64" by blast
  have "parseInt ?bs 2 = Finite (int m)"
    using parseInt_bits [OF ne hashBits_chars] numberOfInt_nat [OF m(1)] by simp
  then have h: "h = padStart 16 (CHR ''0'') (toDigits 16 m)"
    by (simp add: h_def toStringRadix_def)
  have "m < 16 ^ 16" using m(2) by simp
  then have "length (toDigits 16 m) \<le> 16" by (intro length_toDigits16) simp_all
  then have "length h = 16" by (simp add: h padStart_def)
  moreover have "isLowerHexDigit (CHR ''0'')" by (simp add: isLowerHexDigit_def)
  then have "list_all isLowerHexDigit h"
    unfolding h padStart_def using toDigits16_chars [of m] by (auto simp: list_all_iff)
  ultimately show ?thesis by simp
qed

text \<open>
  C1. When the image loads and the canvas yields its 32 by 32 buffer (4096 bytes),
  \<open>generatePerceptualHash\<close> resolves with a string of exactly 16 lowercase hexadecimal
  characters, whatever the pixels are. At most 31 of the 64 bits are set, so the value
  \<open>parseInt\<close> rounds to a double stays below \<open>2 ^ 64\<close> and has at most 16 hex digits.
\<close>

theorem hash_format:
  assumes "imageLoads b" and "context2d b"
    and "getImageData b 32 32 = Inr pixels" and "length pixels = 4 * 32 * 32"
  shows "\<exists>h. generatePerceptualHash b = Resolved h \<and> length h = 16 \<and> list_all isLowerHexDigit h"
proof -
  have gl: "length (grayscaleOf pixels) = 32 * 32"
    and gd: "\<forall>g \<in> set (grayscaleOf pixels). g \<noteq> None"
    using grayscaleOf_defined [of pixels "32 * 32"] assms(4) by simp_all
  have "32 * 32 \<le> length (grayscaleOf pixels)" using gl by simp
  then have "\<forall>c \<in> set (dctCoeffs (grayscaleOf pixels) 32). c \<noteq> None"
    using gd by (rule dctCoeffs_defined)
  from hash_of_coeffs [OF length_dctCoeffs this]
  have "length (computeDCTHash (grayscaleOf pixels) 32) = 16
        \<and> list_all isLowerHexDigit (computeDCTHash (grayscaleOf pixels) 32)"
    by (simp add: computeDCTHash_def)
  then show ?thesis using assms(1-3) by (simp add: generatePerceptualHash_def)
qed

theorem hash_format_witness:
  "imageLoads \<lparr>imageLoads = True, imgWidth = 1, imgHeight = 1, context2d = True,
               getImageData = (\<lambda>sw sh. Inr (replicate (4 * sw * sh) 0))\<rparr> \<and>
   (\<exists>h. generatePerceptualHash
          \<lparr>imageLoads = True, imgWidth = 1, imgHeight = 1, context2d = True,
           getImageData = (\<lambda>sw sh. Inr (replicate (4 * sw * sh) 0))\<rparr> = Resolved h
        \<and> length h = 16 \<and> list_all isLowerHexDigit h)"
  using hash_format [of "\<lparr>imageLoads = True, imgWidth = 1, imgHeight = 1, context2d = True,
               getImageData = (\<lambda>sw sh. Inr (replicate (4 * sw * sh) 0))\<rparr>" "replicate 4096 0"]
  by simp

text \<open>
  C2. In the hash of a 32 by 32 buffer the 64 coefficients stand in row-major \<open>(u, v)\<close>
  order; the threshold is the element at index \<open>floor(64 / 2) = 32\<close> of the ascending
  arrangement of the 63 coefficients at indices 1 to 63; and bit \<open>i\<close> of the 64-character
  binary string is \<open>1\<close> exactly when coefficient \<open>i\<close> is strictly greater than the threshold.
\<close>

theorem threshold_and_bits:
  assumes "length pixels = 4 * 32 * 32"
  defines "cs \<equiv> dctCoeffs (grayscaleOf pixels) 32"
  shows "\<exists>coef sorted.
           length cs = 64 \<and> cs = map Some coef \<and>
           (\<forall>u<8. \<forall>v<8. cs ! (8 * u + v) = dctCoeff (grayscaleOf pixels) 32 u v) \<and>
           length sorted = 63 \<and> sorted_wrt (\<le>) sorted \<and>
           mset sorted = mset (map (nth coef) [1..<64]) \<and>
           medianCoeff cs = Some (sorted ! (64 div 2)) \<and>
           length (hashBits cs) = 64 \<and>
           (\<forall>i<64. hashBits cs ! i = (if coef ! i > sorted ! 32 then CHR ''1'' else CHR ''0''))"
proof -
  define coef where "coef = map the cs"
  define sorted where "sorted = sort (map the (drop 1 cs))"
  have gl: "length (grayscaleOf pixels) = 32 * 32"
    and gd: "\<forall>g \<in> set (grayscaleOf pixels). g \<noteq> None"
    using grayscaleOf_defined [of pixels "32 * 32"] assms(1) by simp_all
  have len: "length cs = 64" by (simp add: cs_def length_dctCoeffs)
  have "32 * 32 \<le> length (grayscaleOf pixels)" using gl by simp
  then have def: "\<forall>c \<in> set cs. c \<noteq> None"
    unfolding cs_def using gd by (rule dctCoeffs_defined)
  then have cs: "cs = map Some coef"
    by (auto simp: coef_def intro!: nth_equalityI)
  have grid: "\<forall>u<8. \<forall>v<8. cs ! (8 * u + v) = dctCoeff (grayscaleOf pixels) 32 u v"
    by (simp add: cs_def dctCoeffs_concat nth_concat_grid)
  have ls: "length sorted = 63" using len by (simp add: sorted_def)
  have so: "sorted_wrt (\<le>) sorted" by (simp add: sorted_def)
  have "map the (drop 1 cs) = drop 1 coef" by (simp add: coef_def drop_map)
  also have "\<dots> = map (nth coef) [1..<length coef]" by (rule drop1_nth)
  finally have "map the (drop 1 cs) = map (nth coef) [1..<64]"
    using len by (simp add: coef_def)
  then have ms: "mset sorted = mset (map (nth coef) [1..<64])"
    by (simp add: sorted_def)
  have med: "medianCoeff cs = Some (sorted ! 32)"
    unfolding sorted_def using len def by (rule medianCoeff_defined)
  have lb: "length (hashBits cs) = 64" using len by (simp add: hashBits_map)
  have bits: "\<forall>i<64. hashBits cs ! i = (if coef ! i > sorted ! 32 then CHR ''1'' else CHR ''0'')"
  proof (intro allI impI)
    fix i :: nat assume i: "i < 64"
    then have "cs ! i = Some (coef ! i)" using len cs by (metis nth_map length_map)
    then show "hashBits cs ! i = (if coef ! i > sorted ! 32 then CHR ''1'' else CHR ''0'')"
      using i len by (simp add: hashBits_map med ngt_def)
  qed
  from len cs grid ls so ms med lb bits show ?thesis by (intro exI [of _ coef] exI [of _ sorted]) simp
qed

theorem threshold_and_bits_witness:
  "length (replicate 4096 (0 :: 8 word)) = 4 * 32 * 32 \<and>
   (\<exists>coef sorted.
      length (dctCoeffs (grayscaleOf (replicate 4096 0)) 32) = 64 \<and>
      dctCoeffs (grayscaleOf (replicate 4096 0)) 32 = map Some coef \<and>
      length sorted = 63 \<and> sorted_wrt (\<le>) sorted \<and>
      mset sorted = mset (map (nth coef) [1..<64]) \<and>
      medianCoeff (dctCoeffs (grayscaleOf (replicate 4096 0)) 32) = Some (sorted ! (64 div 2)) \<and>
      (\<forall>i<64. hashBits (dctCoeffs (grayscaleOf (replicate 4096 0)) 32) ! i
                = (if coef ! i > sorted ! 32 then CHR ''1'' else CHR ''0'')))"
proof -
  have l: "length (replicate 4096 (0 :: 8 word)) = 4 * 32 * 32" by simp
  from threshold_and_bits [OF l] l show ?thesis by blast
qed

section \<open>The corpus search\<close>

lemma candidate_iff:
  assumes "q \<noteq> []"
  shows "(\<not> falsy (perceptual_hash a) \<and>
           calculateHammingDistance q (the (perceptual_hash a)) \<le> moderateThreshold)
         \<longleftrightarrow> withinModerate q a"
proof (cases "perceptual_hash a")
  case None
  then show ?thesis by (simp add: falsy_def withinModerate_def)
next
  case (Some h)
  show ?thesis
  proof (cases "h = []")
    case True
    with assms have "calculateHammingDistance q h = \<infinity>"
      by (simp add: calculateHammingDistance_def)
    with Some True show ?thesis by (simp add: falsy_def withinModerate_def)
  next
    case False
    with Some show ?thesis by (simp add: falsy_def withinModerate_def moderateThreshold_def)
  qed
qed

lemma matchStep_skip:
  assumes "q \<noteq> []" and "\<not> withinModerate q a"
  shows "matchStep q r a = r"
  using candidate_iff [OF assms(1), of a] assms(2)
  by (auto simp: matchStep_def Let_def)

lemma withinModerate_finite:
  assumes "withinModerate q a"
  shows "\<exists>d. distanceTo q a = enat d \<and> d \<le> 20"
proof -
  from assms have "distanceTo q a \<le> 20"
    by (auto simp: withinModerate_def distanceTo_def split: option.splits)
  then show ?thesis by (cases "distanceTo q a") (auto simp: numeral_eq_enat)
qed

lemma calculateConfidence_clamped:
  assumes "withinModerate q a"
  shows "calculateConfidence (distanceTo q a) = clampedConfidence (distanceTo q a)"
  using withinModerate_finite [OF assms]
  by (auto simp: calculateConfidence_def clampedConfidence_def)

lemma matchStep_take:
  assumes "q \<noteq> []" and "withinModerate q a"
  shows "matchStep q r a =
     (if r = None \<or> distanceTo q a < distance (the r)
      then Some \<lparr>artwork = a, distance = distanceTo q a,
                  confidence = clampedConfidence (distanceTo q a)\<rparr>
      else r)"
  using candidate_iff [OF assms(1), of a] assms(2) calculateConfidence_clamped [OF assms(2)]
  by (simp add: matchStep_def Let_def distanceTo_def)

lemma bestMatch_foldl:
  assumes q: "q \<noteq> []"
  shows "bestMatch q corpus (foldl (matchStep q) None corpus)"
proof (induction corpus rule: rev_induct)
  case Nil
  show ?case by (simp add: bestMatch_def)
next
  case (snoc x xs)
  let ?r = "foldl (matchStep q) None xs"
  show ?case
  proof (cases "list_ex (withinModerate q) xs")
    case False
    then have r: "?r = None" using snoc by (simp add: bestMatch_def)
    show ?thesis
    proof (cases "withinModerate q x")
      case True
      have none: "\<forall>b\<in>set xs. \<not> withinModerate q b" using False by (simp add: list_ex_iff)
      have new: "foldl (matchStep q) None (xs @ [x]) =
          Some \<lparr>artwork = x, distance = distanceTo q x,
                 confidence = clampedConfidence (distanceTo q x)\<rparr>"
        using matchStep_take [OF q True, of None] r by simp
      have ex: "list_ex (withinModerate q) (xs @ [x])" using True by simp
      have "\<exists>pre' a' post'. xs @ [x] = pre' @ a' # post' \<and> withinModerate q a' \<and>
           foldl (matchStep q) None (xs @ [x]) =
             Some \<lparr>artwork = a', distance = distanceTo q a',
                     confidence = clampedConfidence (distanceTo q a')\<rparr> \<and>
           (\<forall>b \<in> set pre'. withinModerate q b \<longrightarrow> distanceTo q a' < distanceTo q b) \<and>
           (\<forall>b \<in> set post'. withinModerate q b \<longrightarrow> distanceTo q a' \<le> distanceTo q b)"
        using True new none
        by (intro exI [of _ xs] exI [of _ x] exI [of _ "[]"]) simp
      with ex show ?thesis unfolding bestMatch_def by (simp only: if_True)
    next
      case nx: False
      with False r matchStep_skip [OF q nx, of None] show ?thesis
        by (simp add: bestMatch_def)
    qed
  next
    case True
    with snoc obtain pre a post where dec: "xs = pre @ a # post" and wa: "withinModerate q a"
      and r: "?r = Some \<lparr>artwork = a, distance = distanceTo q a,
                          confidence = clampedConfidence (distanceTo q a)\<rparr>"
      and pre: "\<forall>b \<in> set pre. withinModerate q b \<longrightarrow> distanceTo q a < distanceTo q b"
      and post: "\<forall>b \<in> set post. withinModerate q b \<longrightarrow> distanceTo q a \<le> distanceTo q b"
      by (auto simp: bestMatch_def)
    have ex: "list_ex (withinModerate q) (xs @ [x])" using True by simp
    show ?thesis
    proof (cases "withinModerate q x \<and> distanceTo q x < distanceTo q a")
      case better: True
      then have wx: "withinModerate q x" and lt: "distanceTo q x < distanceTo q a" by simp_all
      have new: "foldl (matchStep q) None (xs @ [x]) =
          Some \<lparr>artwork = x, distance = distanceTo q x,
                 confidence = clampedConfidence (distanceTo q x)\<rparr>"
        using matchStep_take [OF q wx, of ?r] r lt by simp
      have "\<forall>b \<in> set xs. withinModerate q b \<longrightarrow> distanceTo q x < distanceTo q b"
        using pre post lt dec wa by (auto intro: less_le_trans less_trans)
      then have "\<exists>pre' a' post'. xs @ [x] = pre' @ a' # post' \<and> withinModerate q a' \<and>
           foldl (matchStep q) None (xs @ [x]) =
             Some \<lparr>artwork = a', distance = distanceTo q a',
                     confidence = clampedConfidence (distanceTo q a')\<rparr> \<and>
           (\<forall>b \<in> set pre'. withinModerate q b \<longrightarrow> distanceTo q a' < distanceTo q b) \<and>
           (\<forall>b \<in> set post'. withinModerate q b \<longrightarrow> distanceTo q a' \<le> distanceTo q b)"
        using wx new
        by (intro exI [of _ xs] exI [of _ x] exI [of _ "[]"]) simp
      with ex show ?thesis unfolding bestMatch_def by (simp only: if_True)
    next
      case keep: False
      have same: "foldl (matchStep q) None (xs @ [x]) = ?r"
      proof (cases "withinModerate q x")
        case True
        with keep have "\<not> distanceTo q x < distanceTo q a" by simp
        with matchStep_take [OF q True, of ?r] r show ?thesis by simp
      next
        case False
        with matchStep_skip [OF q False, of ?r] show ?thesis by simp
      qed
      have "withinModerate q x \<longrightarrow> distanceTo q a \<le> distanceTo q x"
        using keep by (auto simp: not_less)
      then have "\<exists>pre' a' post'. xs @ [x] = pre' @ a' # post' \<and> withinModerate q a' \<and>
           foldl (matchStep q) None (xs @ [x]) =
             Some \<lparr>artwork = a', distance = distanceTo q a',
                     confidence = clampedConfidence (distanceTo q a')\<rparr> \<and>
           (\<forall>b \<in> set pre'. withinModerate q b \<longrightarrow> distanceTo q a' < distanceTo q b) \<and>
           (\<forall>b \<in> set post'. withinModerate q b \<longrightarrow> distanceTo q a' \<le> distanceTo q b)"
        using wa r pre post same dec
        by (intro exI [of _ pre] exI [of _ a] exI [of _ "post @ [x]"]) auto
      with ex show ?thesis unfolding bestMatch_def by (simp only: if_True)
    qed
  qed
qed


lemma hamming_self: "calculateHammingDistance h h = 0"
  by (simp add: calculateHammingDistance_def Let_def foldl_count zero_enat_def)

text \<open>
  With respect to the distance that \<open>calculateHammingDistance\<close> computes, the search is a
  search for the first entry of least distance. For a query hash (any non-empty string)
  and any corpus, \<open>findSimilarArtwork\<close> passes over the entries without a stored hash; when
  no entry with a stored hash is within computed distance 20 it returns none; otherwise
  it returns an entry \<open>a\<close> with a stored hash, at computed distance \<open>d \<le> 20\<close>, such that
  every candidate before \<open>a\<close> in the corpus is strictly farther and every candidate after
  it is at least as far, with confidence \<open>clamp(1 - d / 64, 0, 1)\<close>. An empty stored hash
  is passed over as well by the source; its distance to a non-empty query is Infinity in
  any case.
\<close>

lemma findSimilarArtwork_least_computed:
  assumes "q \<noteq> []"
  shows "(\<not> list_ex (withinModerate q) corpus \<longrightarrow> findSimilarArtwork q corpus = None) \<and>
    (list_ex (withinModerate q) corpus \<longrightarrow>
      (\<exists>pre a post d. corpus = pre @ a # post \<and> perceptual_hash a \<noteq> None \<and>
         distanceTo q a = enat d \<and> d \<le> 20 \<and>
         findSimilarArtwork q corpus =
           Some \<lparr>artwork = a, distance = enat d, confidence = max 0 (min 1 (1 - real d / 64))\<rparr> \<and>
         (\<forall>b \<in> set pre. withinModerate q b \<longrightarrow> enat d < distanceTo q b) \<and>
         (\<forall>b \<in> set post. withinModerate q b \<longrightarrow> enat d \<le> distanceTo q b)))"
proof (cases "list_ex (withinModerate q) corpus")
  case False
  with bestMatch_foldl [OF assms, of corpus] show ?thesis
    by (simp add: bestMatch_def findSimilarArtwork_def)
next
  case True
  with bestMatch_foldl [OF assms, of corpus]
  obtain pre a post where dec: "corpus = pre @ a # post" and wa: "withinModerate q a"
    and r: "findSimilarArtwork q corpus = Some \<lparr>artwork = a, distance = distanceTo q a,
                          confidence = clampedConfidence (distanceTo q a)\<rparr>"
    and pre: "\<forall>b \<in> set pre. withinModerate q b \<longrightarrow> distanceTo q a < distanceTo q b"
    and post: "\<forall>b \<in> set post. withinModerate q b \<longrightarrow> distanceTo q a \<le> distanceTo q b"
    unfolding bestMatch_def findSimilarArtwork_def by auto
  from withinModerate_finite [OF wa] obtain d where d: "distanceTo q a = enat d" "d \<le> 20"
    by blast
  have h: "perceptual_hash a \<noteq> None"
    using wa by (auto simp: withinModerate_def split: option.splits)
  have "\<exists>pre a post d. corpus = pre @ a # post \<and> perceptual_hash a \<noteq> None \<and>
         distanceTo q a = enat d \<and> d \<le> 20 \<and>
         findSimilarArtwork q corpus =
           Some \<lparr>artwork = a, distance = enat d, confidence = max 0 (min 1 (1 - real d / 64))\<rparr> \<and>
         (\<forall>b \<in> set pre. withinModerate q b \<longrightarrow> enat d < distanceTo q b) \<and>
         (\<forall>b \<in> set post. withinModerate q b \<longrightarrow> enat d \<le> distanceTo q b)"
    using dec h d r pre post
    by (intro exI [of _ pre] exI [of _ a] exI [of _ post] exI [of _ d])
       (simp add: clampedConfidence_def)
  with True show ?thesis by simp
qed

subsection \<open>The computed distance is not the Hamming distance\<close>

lemma digitsValue_query: "digitsValue 16 ''0020000000000003'' = 9007199254740995"
  by (simp add: digitsValue_def digitValue_def)

lemma digitsValue_far: "digitsValue 16 ''0020000000000004'' = 9007199254740996"
  by (simp add: digitsValue_def digitValue_def)

lemma digitsValue_near: "digitsValue 16 ''0020000000000001'' = 9007199254740993"
  by (simp add: digitsValue_def digitValue_def)

lemma digitsValue_ones: "digitsValue 16 ''ffffffffffffffff'' = 18446744073709551615"
  by (simp add: digitsValue_def digitValue_def)

lemma digitsValue_zeros: "digitsValue 16 ''0000000000000000'' = 0"
  by (simp add: digitsValue_def digitValue_def)

lemma bitDistance_far: "bitDistance ''0020000000000003'' ''0020000000000004'' = 3"
  unfolding bitDistance_def digitsValue_query digitsValue_far by (simp add: upt_conv_Cons bit_Suc bit_0)

lemma bitDistance_near: "bitDistance ''0020000000000003'' ''0020000000000001'' = 1"
  unfolding bitDistance_def digitsValue_query digitsValue_near by (simp add: upt_conv_Cons bit_Suc bit_0)

lemma bitDistance_ones_zeros: "bitDistance ''ffffffffffffffff'' ''0000000000000000'' = 64"
  unfolding bitDistance_def digitsValue_ones digitsValue_zeros by (simp add: upt_conv_Cons bit_Suc bit_0)


lemma hex16_examples:
  "isHex16 ''0020000000000003''" "isHex16 ''0020000000000004''" "isHex16 ''0020000000000001''"
  "isHex16 ''ffffffffffffffff''" "isHex16 ''0000000000000000''"
  by (simp_all add: isHex16_def isHexDigit_def)

lemma bitLength_eq: "2 ^ k \<le> n \<Longrightarrow> n < 2 ^ Suc k \<Longrightarrow> bitLength n = Suc k"
  using bitLength_le_iff [of n "Suc k"] bitLength_le_iff [of n k] by simp

lemma roundToDouble_query: "roundToDouble 9007199254740995 = Some 9007199254740996"
proof -
  have "bitLength 9007199254740995 = Suc 53" by (rule bitLength_eq) simp_all
  then show ?thesis by (simp add: roundToDouble_def Let_def)
qed

lemma roundToDouble_far: "roundToDouble 9007199254740996 = Some 9007199254740996"
proof -
  have "bitLength 9007199254740996 = Suc 53" by (rule bitLength_eq) simp_all
  then show ?thesis by (simp add: roundToDouble_def Let_def)
qed

lemma roundToDouble_ones: "roundToDouble 18446744073709551615 = Some 18446744073709551616"
proof -
  have "bitLength 18446744073709551615 = Suc 63" by (rule bitLength_eq) simp_all
  then show ?thesis by (simp add: roundToDouble_def Let_def)
qed

lemma parseInt_query: "parseInt ''0020000000000003'' 16 = Finite 9007199254740996"
  using numberOfInt_nat [OF roundToDouble_query] by (simp add: parseInt_hex16 hex16_examples digitsValue_query)

lemma parseInt_far: "parseInt ''0020000000000004'' 16 = Finite 9007199254740996"
  using numberOfInt_nat [OF roundToDouble_far] by (simp add: parseInt_hex16 hex16_examples digitsValue_far)

lemma parseInt_ones: "parseInt ''ffffffffffffffff'' 16 = Finite 18446744073709551616"
  using numberOfInt_nat [OF roundToDouble_ones] by (simp add: parseInt_hex16 hex16_examples digitsValue_ones)

lemma parseInt_zeros: "parseInt ''0000000000000000'' 16 = Finite 0"
  using numberOfInt_nat [OF roundToDouble_0] by (simp add: parseInt_hex16 hex16_examples digitsValue_zeros)

lemma distance_query_far: "calculateHammingDistance ''0020000000000003'' ''0020000000000004'' = 0"
  by (simp add: calculateHammingDistance_def Let_def parseInt_query parseInt_far foldl_count zero_enat_def)

lemma bin_ones:
  "padStart 64 (CHR ''0'') (toStringRadix (parseInt ''ffffffffffffffff'' 16) 2)
     = CHR ''1'' # replicate 64 (CHR ''0'')"
proof -
  have "toStringRadix (parseInt ''ffffffffffffffff'' 16) 2 = toDigits 2 (2 ^ 64)"
    by (simp add: parseInt_ones toStringRadix_def)
  then show ?thesis by (simp only: bin_top)
qed

lemma bin_zeros:
  "padStart 64 (CHR ''0'') (toStringRadix (parseInt ''0000000000000000'' 16) 2)
     = replicate 64 (CHR ''0'')"
proof -
  have "toStringRadix (parseInt ''0000000000000000'' 16) 2 = ''0''"
    by (simp add: parseInt_zeros toStringRadix_def toDigits.simps [of 2 0] digitChar_def)
  moreover have "replicate 63 (CHR ''0'') @ ''0'' = replicate (Suc 63) (CHR ''0'')"
    by (simp only: replicate_append_same replicate_Suc)
  ultimately show ?thesis by (simp add: padStart_def)
qed

lemma distance_ones_zeros: "calculateHammingDistance ''ffffffffffffffff'' ''0000000000000000'' = 2"
proof -
  let ?b1 = "CHR ''1'' # replicate 64 (CHR ''0'')"
  let ?b2 = "replicate 64 (CHR ''0'')"
  have "(charAt ?b1 i \<noteq> charAt ?b2 i) = (i = 0 \<or> i = 64)" if "i < 65" for i
    using that by (auto simp: charAt_def nth_Cons')
  then have "filter (\<lambda>i. charAt ?b1 i \<noteq> charAt ?b2 i) [0..<65]
      = filter (\<lambda>i. i = 0 \<or> i = 64) [0..<65]"
    by (intro filter_cong) auto
  moreover have "length (filter (\<lambda>i. i = 0 \<or> i = 64) [0..<65 :: nat])
      = card ({i. i = 0 \<or> i = 64} \<inter> set [0..<65 :: nat])"
    by (rule distinct_length_filter) simp
  moreover have "{i. i = 0 \<or> i = 64} \<inter> set [0..<65 :: nat] = {0, 64}" by auto
  ultimately have "length (filter (\<lambda>i. charAt ?b1 i \<noteq> charAt ?b2 i) [0..<65]) = 2" by simp
  then show ?thesis
    by (simp add: calculateHammingDistance_def Let_def bin_ones bin_zeros foldl_count
          numeral_eq_enat [symmetric] del: upt_Suc)
qed

lemma calculateConfidence_0: "calculateConfidence 0 = 1"
  by (simp add: calculateConfidence_def zero_enat_def)

text \<open>
  C3. \<open>findSimilarArtwork\<close> is to return, among the entries with a stored hash at Hamming
  distance at most 20 from the query, the first of least distance. It does not: the
  distance it minimises is the one \<open>calculateHammingDistance\<close> computes, which reads each
  hash as a double and so loses the low bits of a hash of more than 53 bits. For the query
  \<open>0020000000000003\<close> the entry with hash \<open>0020000000000004\<close>, three bits away, is returned
  at distance 0 with confidence 1, although the corpus holds \<open>0020000000000001\<close>, one
  bit away: both the query and the returned hash round to \<open>2 ^ 53 + 4\<close>.
\<close>

theorem findSimilarArtwork_not_nearest:
  "findSimilarArtwork ''0020000000000003''
     [\<lparr>artwork_id = ''a'', perceptual_hash = Some ''0020000000000004'', title = ''t'', user_id = ''u''\<rparr>,
      \<lparr>artwork_id = ''b'', perceptual_hash = Some ''0020000000000001'', title = ''t'', user_id = ''u''\<rparr>]
     = Some \<lparr>artwork = \<lparr>artwork_id = ''a'', perceptual_hash = Some ''0020000000000004'',
                          title = ''t'', user_id = ''u''\<rparr>,
              distance = 0, confidence = 1\<rparr> \<and>
   bitDistance ''0020000000000003'' ''0020000000000004'' = 3 \<and>
   bitDistance ''0020000000000003'' ''0020000000000001'' = 1"
  by (simp add: findSimilarArtwork_def matchStep_def falsy_def Let_def distance_query_far
        moderateThreshold_def calculateConfidence_0 bitDistance_far bitDistance_near)

text \<open>A hash 64 bits away from the query is returned as a match: \<open>ffffffffffffffff\<close>
  rounds to \<open>2 ^ 64\<close>, whose binary string has 65 characters, and differs from the string
  of \<open>0000000000000000\<close> at the first character and at the last, which the other string
  does not have.\<close>

lemma far_apart_match:
  "findSimilarArtwork ''ffffffffffffffff''
     [\<lparr>artwork_id = ''a'', perceptual_hash = Some ''0000000000000000'', title = ''t'', user_id = ''u''\<rparr>]
     = Some \<lparr>artwork = \<lparr>artwork_id = ''a'', perceptual_hash = Some ''0000000000000000'',
                          title = ''t'', user_id = ''u''\<rparr>,
              distance = 2, confidence = 31 / 32\<rparr> \<and>
   bitDistance ''ffffffffffffffff'' ''0000000000000000'' = 64"
  by (simp add: findSimilarArtwork_def matchStep_def falsy_def Let_def distance_ones_zeros
        moderateThreshold_def calculateConfidence_def numeral_eq_enat bitDistance_ones_zeros)

section \<open>Hamming distance and length mismatch\<close>

text \<open>
  C4. For two hashes of 16 hexadecimal characters each, \<open>calculateHammingDistance\<close>
  returns an integer between 0 and 64. The binary string of a hash can have 65 characters
  (a value that rounds to \<open>2 ^ 64\<close> as a double); the count still stays within 64.
\<close>

theorem hamming_range:
  assumes "isHex16 hash1" and "isHex16 hash2"
  shows "\<exists>d. calculateHammingDistance hash1 hash2 = enat d \<and> 0 \<le> d \<and> d \<le> 64"
proof -
  from bin_hex16 [OF assms(1)] obtain m1 where m1:
    "padStart 64 (CHR ''0'') (toStringRadix (parseInt hash1 16) 2) = padStart 64 (CHR ''0'') (toDigits 2 m1)"
    "m1 \<le> 2 ^ 64" "m1 < 2 ^ 53 \<or> even m1" by blast
  from bin_hex16 [OF assms(2)] obtain m2 where m2:
    "padStart 64 (CHR ''0'') (toStringRadix (parseInt hash2 16) 2) = padStart 64 (CHR ''0'') (toDigits 2 m2)"
    "m2 \<le> 2 ^ 64" "m2 < 2 ^ 53 \<or> even m2" by blast
  have len: "length hash1 = length hash2" using assms by (simp add: isHex16_def)
  show ?thesis
    using count_diff_le [OF m1(2,3) m2(2,3)] len
    by (simp add: calculateHammingDistance_def Let_def m1(1) m2(1) foldl_count)
qed

theorem hamming_range_witness:
  "isHex16 ''ffffffffffffffff'' \<and> isHex16 ''7ffffffffffffc00'' \<and>
   (\<exists>d. calculateHammingDistance ''ffffffffffffffff'' ''7ffffffffffffc00'' = enat d \<and> 0 \<le> d \<and> d \<le> 64)"
proof -
  have a: "isHex16 ''ffffffffffffffff''" by (simp add: isHex16_def isHexDigit_def)
  have b: "isHex16 ''7ffffffffffffc00''" by (simp add: isHex16_def isHexDigit_def)
  from hamming_range [OF a b] a b show ?thesis by blast
qed

text \<open>
  C5. A length mismatch is answered by a sentinel and not by an error: hashes of unequal
  length have distance Infinity, vectors of unequal length have similarity 0. Both functions
  are total: no input makes them throw.
\<close>

theorem mismatch_sentinel:
  "(length hash1 \<noteq> length hash2 \<longrightarrow> calculateHammingDistance hash1 hash2 = \<infinity>) \<and>
   (length vec1 \<noteq> length vec2 \<longrightarrow> cosineSimilarity vec1 vec2 = 0)"
  by (simp add: calculateHammingDistance_def cosineSimilarity_def)

theorem mismatch_sentinel_witness:
  "length ''abc'' \<noteq> length ''0123456789abcdef'' \<and>
   calculateHammingDistance ''abc'' ''0123456789abcdef'' = \<infinity> \<and>
   length [1, 2, 3 :: real] \<noteq> length [1, 2, 3, 4, 5 :: real] \<and>
   cosineSimilarity [1, 2, 3] [1, 2, 3, 4, 5] = 0"
  using mismatch_sentinel [of "''abc''" "''0123456789abcdef''" "[1, 2, 3]" "[1, 2, 3, 4, 5]"]
  by simp

section \<open>Feature extraction\<close>

lemma card_prefix_Suc:
  "card {j. j < Suc m \<and> f j = k} = card {j. j < m \<and> f j = k} + (if f m = k then 1 else 0)"
proof -
  have fin: "finite {j. j < m \<and> f j = k}" by simp
  show ?thesis
  proof (cases "f m = k")
    case True
    then have "{j. j < Suc m \<and> f j = k} = insert m {j. j < m \<and> f j = k}"
      by (auto simp: less_Suc_eq)
    then show ?thesis using True fin by simp
  next
    case False
    then have "{j. j < Suc m \<and> f j = k} = {j. j < m \<and> f j = k}"
      by (auto simp: less_Suc_eq)
    then show ?thesis using False by simp
  qed
qed

lemma sum_card_prefix:
  assumes "\<forall>j<n. f j < (b::nat)"
  shows "(\<Sum>k = 0..<b. card {j. j < n \<and> f j = k}) = n"
  using assms
proof (induction n)
  case 0
  show ?case by simp
next
  case (Suc n)
  then have ih: "(\<Sum>k = 0..<b. card {j. j < n \<and> f j = k}) = n" and fn: "f n < b" by simp_all
  have "(\<Sum>k = 0..<b. card {j. j < Suc n \<and> f j = k})
      = (\<Sum>k = 0..<b. card {j. j < n \<and> f j = k}) + (\<Sum>k = 0..<b. if f n = k then 1 else 0)"
    by (simp only: card_prefix_Suc sum.distrib)
  also have "(\<Sum>k = 0..<b. if f n = k then 1 else 0) = (1::nat)"
    using fn by simp
  finally show ?case using ih by simp
qed

lemma incrAt_nth:
  assumes "j < length h" and "i < length h"
  shows "incrAt h (Some j) ! i = h ! i + (if i = j then 1 else 0)"
  using assms by (simp add: incrAt_def nth_list_update)

lemma length_incrAt [simp]: "length (incrAt h k) = length h"
  by (simp add: incrAt_def split: option.splits)

lemma byte_bin: "unat (w :: 8 word) div 16 < 16"
proof -
  have "unat w < 2 ^ 8" using unsigned_less [of w] by simp
  then show ?thesis by simp
qed

lemma colorCounts_invariant:
  assumes len: "length pixels = 4 * n" and m: "m \<le> n"
  defines "step \<equiv> (\<lambda>i histogram.
          incrAt (incrAt (incrAt histogram (chanBin pixels i))
                         (map_option ((+) 16) (chanBin pixels (i + 1))))
                 (map_option ((+) (16 * 2)) (chanBin pixels (i + 2))))"
  defines "hist \<equiv> foldl (\<lambda>s k. step (4 * k) s) (replicate (16 * 3) 0) [0..<m]"
  shows "length hist = 48 \<and>
         (\<forall>k<16. hist ! k = card {j. j < m \<and> channelBin pixels 0 j = k} \<and>
                  hist ! (16 + k) = card {j. j < m \<and> channelBin pixels 1 j = k} \<and>
                  hist ! (32 + k) = card {j. j < m \<and> channelBin pixels 2 j = k})"
  using m unfolding hist_def
proof (induction m)
  case 0
  show ?case by simp
next
  case (Suc m)
  let ?h = "foldl (\<lambda>s k. step (4 * k) s) (replicate (16 * 3) 0) [0..<m]"
  from Suc have ih: "length ?h = 48"
    "\<forall>k<16. ?h ! k = card {j. j < m \<and> channelBin pixels 0 j = k} \<and>
              ?h ! (16 + k) = card {j. j < m \<and> channelBin pixels 1 j = k} \<and>
              ?h ! (32 + k) = card {j. j < m \<and> channelBin pixels 2 j = k}"
    by simp_all
  from Suc.prems len have in_range: "4 * m + 2 < length pixels" by simp
  define r where "r = channelBin pixels 0 m"
  define g where "g = channelBin pixels 1 m"
  define b where "b = channelBin pixels 2 m"
  have rgb: "r < 16" "g < 16" "b < 16" by (simp_all add: r_def g_def b_def channelBin_def byte_bin)
  have cb: "chanBin pixels (4 * m) = Some r" "chanBin pixels (4 * m + 1) = Some g"
    "chanBin pixels (4 * m + 2) = Some b"
    using in_range by (simp_all add: chanBin_def r_def g_def b_def channelBin_def)
  have st: "foldl (\<lambda>s k. step (4 * k) s) (replicate (16 * 3) 0) [0..<Suc m]
      = incrAt (incrAt (incrAt ?h (Some r)) (Some (16 + g))) (Some (32 + b))"
    using cb by (simp add: step_def)
  have nth: "incrAt (incrAt (incrAt ?h (Some r)) (Some (16 + g))) (Some (32 + b)) ! i
      = ?h ! i + (if i = r then 1 else 0) + (if i = 16 + g then 1 else 0) + (if i = 32 + b then 1 else 0)"
    if "i < 48" for i
    using that rgb ih(1) by (simp add: incrAt_nth)
  show ?case
    unfolding st
  proof (intro conjI allI impI)
    show "length (incrAt (incrAt (incrAt ?h (Some r)) (Some (16 + g))) (Some (32 + b))) = 48"
      using ih(1) by simp
  next
    fix k :: nat assume k: "k < 16"
    have cr: "card {j. j < Suc m \<and> channelBin pixels 0 j = k}
        = card {j. j < m \<and> channelBin pixels 0 j = k} + (if k = r then 1 else 0)"
      unfolding card_prefix_Suc r_def by auto
    have cg: "card {j. j < Suc m \<and> channelBin pixels 1 j = k}
        = card {j. j < m \<and> channelBin pixels 1 j = k} + (if k = g then 1 else 0)"
      unfolding card_prefix_Suc g_def by auto
    have cb': "card {j. j < Suc m \<and> channelBin pixels 2 j = k}
        = card {j. j < m \<and> channelBin pixels 2 j = k} + (if k = b then 1 else 0)"
      unfolding card_prefix_Suc b_def by auto
    have "incrAt (incrAt (incrAt ?h (Some r)) (Some (16 + g))) (Some (32 + b)) ! k
        = ?h ! k + (if k = r then 1 else 0)"
      using nth [of k] k rgb by simp
    then show "incrAt (incrAt (incrAt ?h (Some r)) (Some (16 + g))) (Some (32 + b)) ! k
        = card {j. j < Suc m \<and> channelBin pixels 0 j = k}"
      using ih(2) k by (simp only: cr)
    have "incrAt (incrAt (incrAt ?h (Some r)) (Some (16 + g))) (Some (32 + b)) ! (16 + k)
        = ?h ! (16 + k) + (if k = g then 1 else 0)"
      using nth [of "16 + k"] k rgb by simp
    then show "incrAt (incrAt (incrAt ?h (Some r)) (Some (16 + g))) (Some (32 + b)) ! (16 + k)
        = card {j. j < Suc m \<and> channelBin pixels 1 j = k}"
      using ih(2) k by (simp only: cg)
    have "incrAt (incrAt (incrAt ?h (Some r)) (Some (16 + g))) (Some (32 + b)) ! (32 + k)
        = ?h ! (32 + k) + (if k = b then 1 else 0)"
      using nth [of "32 + k"] k rgb by simp
    then show "incrAt (incrAt (incrAt ?h (Some r)) (Some (16 + g))) (Some (32 + b)) ! (32 + k)
        = card {j. j < Suc m \<and> channelBin pixels 2 j = k}"
      using ih(2) k by (simp only: cb')
  qed
qed

lemma colorCounts_counts:
  assumes len: "length pixels = 4 * n"
  shows "length (colorCounts pixels) = 48"
    and "k < 16 \<Longrightarrow> colorCounts pixels ! k = card {j. j < n \<and> channelBin pixels 0 j = k}"
    and "k < 16 \<Longrightarrow> colorCounts pixels ! (16 + k) = card {j. j < n \<and> channelBin pixels 1 j = k}"
    and "k < 16 \<Longrightarrow> colorCounts pixels ! (32 + k) = card {j. j < n \<and> channelBin pixels 2 j = k}"
  using colorCounts_invariant [OF len order_refl]
  unfolding colorCounts_def len forStep4 by simp_all

lemma segment_nth:
  assumes "off + m \<le> length xs"
  shows "take m (drop off xs) = map (\<lambda>k. xs ! (off + k)) [0..<m]"
  using assms by (intro nth_equalityI) simp_all

lemma group_sum:
  fixes counts :: "nat list"
  assumes "off + 16 \<le> length counts" and "0 < n"
    and "\<And>k. k < 16 \<Longrightarrow> counts ! (off + k) = card {j. j < n \<and> f j = k}"
    and "\<forall>j<n. f j < 16"
  shows "sum_list (take 16 (drop off (map (\<lambda>c. real c / real n) counts))) = 1"
proof -
  have "take 16 (drop off (map (\<lambda>c. real c / real n) counts))
      = map (\<lambda>k. real (counts ! (off + k)) / real n) [0..<16]"
    using assms(1) by (intro nth_equalityI) simp_all
  also have "\<dots> = map (\<lambda>k. real (card {j. j < n \<and> f j = k}) / real n) [0..<16]"
    using assms(3) by (intro map_cong) simp_all
  finally have "sum_list (take 16 (drop off (map (\<lambda>c. real c / real n) counts)))
      = (\<Sum>k = 0..<16. real (card {j. j < n \<and> f j = k}) / real n)"
    by (simp only: interv_sum_list_conv_sum_set_nat set_upt)
  also have "\<dots> = real (\<Sum>k = 0..<16. card {j. j < n \<and> f j = k}) / real n"
    by (simp add: sum_divide_distrib)
  also have "\<dots> = 1"
    using sum_card_prefix [OF assms(4)] assms(2) by simp
  finally show ?thesis .
qed

lemma computeColorHistogram_general:
  assumes len: "length pixels = 4 * n" and n: "0 < n"
  shows "\<exists>hist. computeColorHistogram pixels = map Some hist \<and> length hist = 48 \<and>
    (\<forall>k<16.
       hist ! k = real (card {j. j < n \<and> unat (pixels ! (4 * j)) div 16 = k}) / real n \<and>
       hist ! (16 + k) = real (card {j. j < n \<and> unat (pixels ! (4 * j + 1)) div 16 = k}) / real n \<and>
       hist ! (32 + k) = real (card {j. j < n \<and> unat (pixels ! (4 * j + 2)) div 16 = k}) / real n) \<and>
    list_all (\<lambda>x. 0 \<le> x) hist \<and>
    sum_list (take 16 hist) = 1 \<and> sum_list (take 16 (drop 16 hist)) = 1 \<and>
    sum_list (drop 32 hist) = 1"
proof -
  define counts where "counts = colorCounts pixels"
  define hist where "hist = map (\<lambda>c. real c / real n) counts"
  note cc = colorCounts_counts [OF len, folded counts_def]
  have total: "real (length pixels) / 4 = real n" by (simp add: len)
  have h: "computeColorHistogram pixels = map Some hist"
    using n by (simp add: computeColorHistogram_def total hist_def counts_def comp_def)
  have lh: "length hist = 48" by (simp add: hist_def cc(1))
  have bins: "\<forall>j<n. channelBin pixels c j < 16" for c by (simp add: channelBin_def byte_bin)
  have vals: "\<forall>k<16.
       hist ! k = real (card {j. j < n \<and> unat (pixels ! (4 * j)) div 16 = k}) / real n \<and>
       hist ! (16 + k) = real (card {j. j < n \<and> unat (pixels ! (4 * j + 1)) div 16 = k}) / real n \<and>
       hist ! (32 + k) = real (card {j. j < n \<and> unat (pixels ! (4 * j + 2)) div 16 = k}) / real n"
    using cc by (simp add: hist_def channelBin_def)
  have pos: "list_all (\<lambda>x. 0 \<le> x) hist" by (simp add: hist_def list_all_iff)
  have s1: "sum_list (take 16 (drop 0 hist)) = 1"
    unfolding hist_def using cc(1) n cc(2) bins [of 0] by (intro group_sum [where f = "channelBin pixels 0"]) simp_all
  have s2: "sum_list (take 16 (drop 16 hist)) = 1"
    unfolding hist_def using cc(1) n cc(3) bins [of 1] by (intro group_sum [where f = "channelBin pixels 1"]) simp_all
  have s3: "sum_list (take 16 (drop 32 hist)) = 1"
    unfolding hist_def using cc(1) n cc(4) bins [of 2] by (intro group_sum [where f = "channelBin pixels 2"]) simp_all
  have "take 16 (drop 32 hist) = drop 32 hist" using lh by simp
  with s3 have s3': "sum_list (drop 32 hist) = 1" by simp
  from h lh vals pos s1 s2 s3' show ?thesis by (intro exI [of _ hist]) simp
qed

text \<open>
  C7. When the image loads and the canvas yields its 256 by 256 buffer,
  \<open>analyzeImageFeatures\<close> resolves with a colour histogram of exactly 48 numbers: entry
  \<open>k\<close>, \<open>16 + k\<close> and \<open>32 + k\<close> (\<open>k < 16\<close>) is the number of pixels whose red, green and
  blue value has \<open>floor(value / 16) = k\<close>, divided by the number of pixels; every entry is
  non-negative and each group of 16 sums to 1. (With 65536 pixels the divisions are exact
  on doubles as well.)
\<close>

theorem color_histogram:
  assumes "imageLoads b" and "context2d b"
    and "getImageData b 256 256 = Inr pixels" and "length pixels = 4 * (256 * 256)"
  shows "\<exists>f hist. analyzeImageFeatures b = Resolved f \<and>
    colorHistogram f = map Some hist \<and> length hist = 48 \<and>
    (\<forall>k<16.
       hist ! k = real (card {j. j < 256 * 256 \<and> unat (pixels ! (4 * j)) div 16 = k}) / real (256 * 256) \<and>
       hist ! (16 + k) = real (card {j. j < 256 * 256 \<and> unat (pixels ! (4 * j + 1)) div 16 = k}) / real (256 * 256) \<and>
       hist ! (32 + k) = real (card {j. j < 256 * 256 \<and> unat (pixels ! (4 * j + 2)) div 16 = k}) / real (256 * 256)) \<and>
    list_all (\<lambda>x. 0 \<le> x) hist \<and>
    sum_list (take 16 hist) = 1 \<and> sum_list (take 16 (drop 16 hist)) = 1 \<and>
    sum_list (drop 32 hist) = 1"
proof -
  have n: "0 < (256 * 256 :: nat)" by simp
  from computeColorHistogram_general [OF assms(4) n] obtain hist where
    h1: "computeColorHistogram pixels = map Some hist" and h2: "length hist = 48" and
    h3: "\<forall>k<16.
       hist ! k = real (card {j. j < 256 * 256 \<and> unat (pixels ! (4 * j)) div 16 = k}) / real (256 * 256) \<and>
       hist ! (16 + k) = real (card {j. j < 256 * 256 \<and> unat (pixels ! (4 * j + 1)) div 16 = k}) / real (256 * 256) \<and>
       hist ! (32 + k) = real (card {j. j < 256 * 256 \<and> unat (pixels ! (4 * j + 2)) div 16 = k}) / real (256 * 256)" and
    h4: "list_all (\<lambda>x. 0 \<le> x) hist" and
    h5: "sum_list (take 16 hist) = 1" and h6: "sum_list (take 16 (drop 16 hist)) = 1" and
    h7: "sum_list (drop 32 hist) = 1"
    by (elim exE conjE)
  define f where "f = \<lparr>colorHistogram = computeColorHistogram pixels,
                edgeFeatures = computeEdgeFeatures \<lparr>width = 256, height = 256, data = pixels\<rparr>,
                textureFeatures = computeTextureFeatures \<lparr>width = 256, height = 256, data = pixels\<rparr>\<rparr>"
  have af: "analyzeImageFeatures b = Resolved f"
    using assms(1-3) by (simp add: analyzeImageFeatures_def Let_def f_def)
  have ch: "colorHistogram f = map Some hist" by (simp add: f_def h1)
  from af ch h2 h3 h4 h5 h6 h7 show ?thesis
    by (intro exI [of _ f] exI [of _ hist] conjI)
qed

theorem color_histogram_witness:
  "\<exists>f hist.
     analyzeImageFeatures \<lparr>imageLoads = True, imgWidth = 640, imgHeight = 480, context2d = True,
        getImageData = (\<lambda>sw sh. Inr (replicate (4 * (sw * sh)) 0))\<rparr> = Resolved f \<and>
     colorHistogram f = map Some hist \<and> length hist = 48 \<and> list_all (\<lambda>x. 0 \<le> x) hist \<and>
     sum_list (take 16 hist) = 1 \<and> sum_list (take 16 (drop 16 hist)) = 1 \<and>
     sum_list (drop 32 hist) = 1"
proof -
  let ?b = "\<lparr>imageLoads = True, imgWidth = 640, imgHeight = 480, context2d = True,
        getImageData = (\<lambda>sw sh. Inr (replicate (4 * (sw * sh)) (0 :: 8 word)))\<rparr>"
  have a: "imageLoads ?b" and b: "context2d ?b"
    and c: "getImageData ?b 256 256 = Inr (replicate (4 * (256 * 256)) 0)"
    and d: "length (replicate (4 * (256 * 256)) (0 :: 8 word)) = 4 * (256 * 256)"
    by simp_all
  from color_histogram [OF a b c d] show ?thesis by blast
qed

lemma gray_black:
  assumes "0 \<le> idx" and "idx + 2 < int N"
  shows "gray (replicate N 0) idx = Some 0"
proof -
  have "nat idx < N" "nat (idx + 1) < N" "nat (idx + 2) < N" using assms by linarith+
  then show ?thesis using assms(1)
    by (simp add: gray_def rd_def dadd_def dmul_def nadd_def nmul_def)
qed

lemma neighbour_in_range:
  assumes x: "1 \<le> x" "x < w - 1" and y: "1 \<le> y" "y < h - 1"
    and a: "a \<in> {-1, 0, 1}" and b: "b \<in> {-1, 0, 1}"
  defines "idx \<equiv> ((int y + a) * int w + (int x + b)) * 4"
  shows "0 \<le> idx" and "idx + 2 < int (4 * w * h)"
proof -
  define Y where "Y = int y + a"
  define X where "X = int x + b"
  have Y: "0 \<le> Y" "Y \<le> int h - 1" using y a by (auto simp: Y_def)
  have X: "0 \<le> X" "X \<le> int w - 1" using x b by (auto simp: X_def)
  have w0: "0 \<le> int w" by simp
  have "0 \<le> Y * int w" using Y(1) w0 by (rule mult_nonneg_nonneg)
  with X(1) show "0 \<le> idx" by (simp add: idx_def Y_def X_def)
  have "Y * int w \<le> (int h - 1) * int w" using Y(2) w0 by (rule mult_right_mono)
  then have "Y * int w + X \<le> (int h - 1) * int w + (int w - 1)" using X(2) by linarith
  also have "\<dots> = int w * int h - 1" by (simp add: algebra_simps)
  finally have le: "Y * int w + X \<le> int w * int h - 1" .
  define T where "T = Y * int w + X"
  define P where "P = int w * int h"
  from le have "T \<le> P - 1" by (simp add: T_def P_def)
  then have "T * 4 + 2 < 4 * P" by arith
  then have "(Y * int w + X) * 4 + 2 < 4 * (int w * int h)" by (simp add: T_def P_def)
  then show "idx + 2 < int (4 * w * h)" by (simp add: idx_def Y_def X_def algebra_simps)
qed

lemma sobelAt_black:
  assumes x: "1 \<le> x" "x < w - 1" and y: "1 \<le> y" "y < h - 1"
  shows "sobelAt \<lparr>width = w, height = h, data = replicate (4 * w * h) 0\<rparr> x y = (Some 0, Some 0)"
proof -
  have g: "gray (replicate (4 * w * h) 0) (((int y + a) * int w + (int x + b)) * 4) = Some 0"
    if "a \<in> {-1, 0, 1}" "b \<in> {-1, 0, 1}" for a b
    using neighbour_in_range [OF x y that] by (intro gray_black)
  have step: "(\<lambda>(gx, gy) kx.
              let idx = ((int y + ky) * int w + (int x + kx)) * 4;
                  g = gray (replicate (4 * w * h) 0) idx;
                  kernelIdx = nat ((ky + 1) * 3 + (kx + 1))
              in (nadd gx (nmul g (Some (sobelX ! kernelIdx))),
                  nadd gy (nmul g (Some (sobelY ! kernelIdx))))) (Some 0, Some 0) kx
            = (Some 0, Some 0)"
    if "ky \<in> {-1, 0, 1}" "kx \<in> {-1, 0, 1}" for ky kx
    using g [OF that] by (simp add: Let_def nadd_def nmul_def)
  show ?thesis
    unfolding sobelAt_def imageData.simps foldl_Cons foldl_Nil
    by (simp only: step insertI1 insertI2)
qed

lemma edgeMagnitude_black:
  assumes "1 \<le> x" "x < w - 1" "1 \<le> y" "y < h - 1"
  shows "edgeMagnitude \<lparr>width = w, height = h, data = replicate (4 * w * h) 0\<rparr> x y = Some 0"
  by (simp add: edgeMagnitude_def sobelAt_black [OF assms] nadd_def nmul_def)

lemma sobelEdges_concat:
  "sobelEdges img =
     concat (map (\<lambda>y. map (\<lambda>x. edgeMagnitude img x y) [1..<width img - 1]) [1..<height img - 1])"
  unfolding sobelEdges_def by (simp only: foldl_snoc foldl_append_concat append_Nil)

lemma concat_replicate_replicate:
  "concat (replicate m (replicate n x)) = replicate (m * n) x"
  by (induction m) (simp_all add: replicate_add)

lemma sobelEdges_black:
  assumes "3 \<le> w" and "3 \<le> h"
  defines "img \<equiv> \<lparr>width = w, height = h, data = replicate (4 * w * h) 0\<rparr>"
  shows "sobelEdges img = replicate ((h - 2) * (w - 2)) (Some 0)"
proof -
  have row: "map (\<lambda>x. edgeMagnitude img x y) [1..<w - 1] = replicate (w - 2) (Some 0)"
    if "y \<in> set [1..<h - 1]" for y
    using that by (intro nth_equalityI) (simp_all add: img_def edgeMagnitude_black)
  have sel: "width img = w" "height img = h" by (simp_all add: img_def)
  have eq: "map (\<lambda>y. map (\<lambda>x. edgeMagnitude img x y) [1..<width img - 1]) [1..<height img - 1]
      = map (\<lambda>y. replicate (w - 2) (Some 0)) [1..<h - 1]"
    unfolding sel by (rule map_cong [OF refl]) (rule row)
  have "sobelEdges img = concat (map (\<lambda>y. replicate (w - 2) (Some 0)) [1..<h - 1])"
    unfolding sobelEdges_concat eq ..
  also have "\<dots> = concat (replicate (h - 2) (replicate (w - 2) (Some 0)))"
  proof -
    have "h - Suc (Suc 0) = h - 2" by simp
    then show ?thesis by (simp add: map_replicate_const)
  qed
  also have "\<dots> = replicate ((h - 2) * (w - 2)) (Some 0)"
    by (rule concat_replicate_replicate)
  finally show ?thesis .
qed

lemma mathMax_zeros: "0 < n \<Longrightarrow> mathMax (replicate n (Some 0)) = Some 0"
proof -
  assume "0 < n"
  then obtain m where n: "n = Suc m" by (cases n) auto
  have "foldl nmax (Some 0) (replicate m (Some 0)) = Some 0"
    by (induction m) (simp_all add: nmax_def)
  then show ?thesis by (simp add: n mathMax_def)
qed

lemma histogram_untouched:
  "foldl (\<lambda>histogram edge. incrAt histogram (edgeBin edge (Some 0))) h0 (replicate n (Some 0)) = h0"
  by (induction n) (simp_all add: edgeBin_def incrAt_def)

lemma computeEdgeFeatures_black:
  assumes "3 \<le> w" and "3 \<le> h"
  shows "computeEdgeFeatures \<lparr>width = w, height = h, data = replicate (4 * w * h) 0\<rparr>
         = replicate 10 (Some 0)"
proof -
  define n where "n = (h - 2) * (w - 2)"
  have n: "0 < n" using assms by (simp add: n_def)
  have e: "sobelEdges \<lparr>width = w, height = h, data = replicate (4 * w * h) 0\<rparr>
      = replicate n (Some 0)"
    unfolding n_def using assms by (rule sobelEdges_black)
  have ne: "replicate n (Some (0::real)) \<noteq> []" using n by simp
  show ?thesis
    unfolding computeEdgeFeatures_def Let_def e mathMax_zeros [OF n] histogram_untouched
    using ne by (simp add: map_replicate)
qed

text \<open>
  C8. The edge histogram of a 256 by 256 buffer is claimed to have 10 entries that sum to
  about 1, a buffer of uniform luminance included. On the buffer whose bytes are all 0
  every Sobel magnitude is 0, so is their maximum, every \<open>edge / maxEdge\<close> is \<open>0 / 0\<close>, no
  bin is incremented, and the 10 entries returned are all 0: their sum is 0.
\<close>

theorem edge_histogram_uniform_black:
  "computeEdgeFeatures \<lparr>width = 256, height = 256, data = replicate (4 * 256 * 256) 0\<rparr>
     = replicate 10 (Some 0) \<and>
   sum_list (map the (computeEdgeFeatures
      \<lparr>width = 256, height = 256, data = replicate (4 * 256 * 256) 0\<rparr>)) = 0"
proof -
  have "computeEdgeFeatures \<lparr>width = 256, height = 256, data = replicate (4 * 256 * 256) 0\<rparr>
     = replicate 10 (Some 0)"
    by (rule computeEdgeFeatures_black) simp_all
  then show ?thesis by (simp add: sum_list_replicate)
qed

section \<open>The screenshot heuristic\<close>

lemma fst_foldl_rows:
  assumes "\<And>y s. fst (step s y) = foldl dadd (fst s) (g y)"
  shows "fst (foldl step s ys) = foldl dadd (fst s) (concat (map g ys))"
  by (induction ys arbitrary: s) (simp_all add: assms)

lemma edgeScan_grid: "fst (edgeScan w h d) = foldl dadd (Some 0) (sampledEdges w h d)"
proof -
  let ?xs = "filter (\<lambda>x. x mod 5 = 1) [1..<w - 1]"
  let ?ys = "filter (\<lambda>y. y mod 5 = 1) [1..<h - 1]"
  let ?body = "\<lambda>y x (totalEdgeStrength, edgePixels).
             let e = edgeStrength d w x y
             in (dadd totalEdgeStrength e, if ngt e (Some 80) then edgePixels + 1 else edgePixels)"
  have scan: "edgeScan w h d
      = foldl (\<lambda>s y. foldl (\<lambda>s x. ?body y x s) s ?xs) (Some 0, 0 :: nat) ?ys"
    by (simp add: edgeScan_def forStep_filter)
  have inner: "fst (foldl (\<lambda>s x. ?body y x s) s ?xs)
      = foldl dadd (fst s) (map (\<lambda>x. edgeStrength d w x y) ?xs)" for y s
  proof -
    have "fst (foldl (\<lambda>s x. ?body y x s) s ?xs)
        = foldl dadd (fst s) (concat (map (\<lambda>x. [edgeStrength d w x y]) ?xs))"
      by (rule fst_foldl_rows [where g = "\<lambda>x. [edgeStrength d w x y]"])
         (simp add: Let_def split: prod.splits)
    also have "concat (map (\<lambda>x. [edgeStrength d w x y]) ?xs) = map (\<lambda>x. edgeStrength d w x y) ?xs"
      by (induction ?xs) simp_all
    finally show ?thesis .
  qed
  have "fst (foldl (\<lambda>s y. foldl (\<lambda>s x. ?body y x s) s ?xs) (Some 0, 0 :: nat) ?ys)
      = foldl dadd (fst (Some 0 :: real option, 0 :: nat))
          (concat (map (\<lambda>y. map (\<lambda>x. edgeStrength d w x y) ?xs) ?ys))"
    by (rule fst_foldl_rows [where g = "\<lambda>y. map (\<lambda>x. edgeStrength d w x y) ?xs"]) (rule inner)
  also have "concat (map (\<lambda>y. map (\<lambda>x. edgeStrength d w x y) ?xs) ?ys) = sampledEdges w h d"
    by (simp add: sampledEdges_def interiorGrid_def map_concat comp_def)
  finally show ?thesis by (simp add: scan)
qed

lemma crisp_signal:
  "detectionScore (detectCrispEdges w h d st)
     = detectionScore st
       + (if ngt (perSample w h (foldl dadd (Some 0) (sampledEdges w h d))) (Some 180)
          then 0.15 else 0)"
  by (simp add: detectCrispEdges_def addSignal_def avgEdgeStrength_def edgeScan_grid)

lemma interiorGrid_3x3: "interiorGrid 3 3 = [(1, 1)]"
  by (simp add: interiorGrid_def upt_conv_Cons)

lemma gray_zero:
  assumes "i + 2 < length d" and "d ! i = 0" and "d ! (i + 1) = 0" and "d ! (i + 2) = 0"
  shows "gray d (int i) = Some 0"
  using gray_in [OF assms(1)] assms(2-4) by simp

lemma gray_50:
  assumes "i + 2 < length d" and "d ! i = 50" and "d ! (i + 1) = 50" and "d ! (i + 2) = 50"
  shows "\<exists>g. gray d (int i) = Some g \<and> 49.7 \<le> g \<and> g \<le> 50.3"
proof -
  have c1: "0.2987 \<le> fl 0.299" "fl 0.299 \<le> 0.2993"
    using fl_interval [of "0.299" "0.299" "0.299"] by simp_all
  have c2: "0.5864 \<le> fl 0.587" "fl 0.587 \<le> 0.5876"
    using fl_interval [of "0.587" "0.587" "0.587"] by simp_all
  have c3: "0.1138 \<le> fl 0.114" "fl 0.114 \<le> 0.1142"
    using fl_interval [of "0.114" "0.114" "0.114"] by simp_all
  have p1: "14.92 \<le> fl (fl 0.299 * 50)" "fl (fl 0.299 * 50) \<le> 14.98"
    using fl_interval [of "0.2987 * 50" "fl 0.299 * 50" "0.2993 * 50"] c1 by simp_all
  have p2: "29.29 \<le> fl (fl 0.587 * 50)" "fl (fl 0.587 * 50) \<le> 29.41"
    using fl_interval [of "0.5864 * 50" "fl 0.587 * 50" "0.5876 * 50"] c2 by simp_all
  have p3: "5.684 \<le> fl (fl 0.114 * 50)" "fl (fl 0.114 * 50) \<le> 5.716"
    using fl_interval [of "0.1138 * 50" "fl 0.114 * 50" "0.1142 * 50"] c3 by simp_all
  have s1: "44.16 \<le> fl (fl (fl 0.299 * 50) + fl (fl 0.587 * 50))"
           "fl (fl (fl 0.299 * 50) + fl (fl 0.587 * 50)) \<le> 44.44"
    using fl_interval [of "14.92 + 29.29" "fl (fl 0.299 * 50) + fl (fl 0.587 * 50)" "14.98 + 29.41"]
      p1 p2 by simp_all
  have s2: "49.7 \<le> fl (fl (fl (fl 0.299 * 50) + fl (fl 0.587 * 50)) + fl (fl 0.114 * 50))"
           "fl (fl (fl (fl 0.299 * 50) + fl (fl 0.587 * 50)) + fl (fl 0.114 * 50)) \<le> 50.3"
    using fl_interval [of "44.16 + 5.684"
        "fl (fl (fl 0.299 * 50) + fl (fl 0.587 * 50)) + fl (fl 0.114 * 50)" "44.44 + 5.716"]
      s1 p3 by simp_all
  have "gray d (int i)
      = Some (fl (fl (fl (fl 0.299 * 50) + fl (fl 0.587 * 50)) + fl (fl 0.114 * 50)))"
    using gray_in [OF assms(1)] assms(2-4) by simp
  with s2 show ?thesis by simp
qed


lemma example_edge:
  "\<exists>e. edgeStrength [0, 0, 0, 255, 0, 0, 0, 255, 0, 0, 0, 255,
      0, 0, 0, 255, 50, 50, 50, 255, 0, 0, 0, 255,
      0, 0, 0, 255, 0, 0, 0, 255, 0, 0, 0, 255] 3 1 1 = Some e \<and> 99 \<le> e \<and> e \<le> 101"
  (is "\<exists>e. edgeStrength ?D 3 1 1 = Some e \<and> _ \<and> _")
proof -
  obtain g where g: "gray ?D 16 = Some g" "49.7 \<le> g" "g \<le> 50.3"
    using gray_50 [of 16 ?D] by auto
  have r: "gray ?D 20 = Some 0" using gray_zero [of 20 ?D] by simp
  have b: "gray ?D 28 = Some 0" using gray_zero [of 28 ?D] by simp
  have f: "49.6 \<le> fl g" "fl g \<le> 50.4"
    using fl_interval [of "49.7" g "50.3"] g by simp_all
  have e: "edgeStrength ?D 3 1 1 = Some (fl (\<bar>fl g\<bar> + \<bar>fl g\<bar>))"
    by (simp add: edgeStrength_def g r b dsub_def dadd_def nsub_def nadd_def)
  have "99 \<le> fl (\<bar>fl g\<bar> + \<bar>fl g\<bar>)" "fl (\<bar>fl g\<bar> + \<bar>fl g\<bar>) \<le> 101"
    using fl_interval [of "49.6 + 49.6" "\<bar>fl g\<bar> + \<bar>fl g\<bar>" "50.4 + 50.4"] f by simp_all
  with e show ?thesis by simp
qed

lemma example_avg:
  assumes "99 \<le> e"
  shows "270 \<le> fl (fl (0 + e) / fl (fl 9 / 25))"
proof -
  have t: "98.9 \<le> fl (0 + e)"
    using fl_interval(1) [of "99" "0 + e" "0 + e"] assms by simp
  have n: "8.99 \<le> fl 9" "fl 9 \<le> 9.01"
    using fl_interval [of "9" "9" "9"] by simp_all
  have a: "0.359 \<le> fl (fl 9 / 25)" "fl (fl 9 / 25) \<le> 0.361"
    using fl_interval [of "8.99 / 25" "fl 9 / 25" "9.01 / 25"] n by simp_all
  have "271 * fl (fl 9 / 25) \<le> fl (0 + e)" using t a by simp
  then have "271 \<le> fl (0 + e) / fl (fl 9 / 25)" using a by (simp add: pos_le_divide_eq)
  from fl_interval(1) [OF _ this order_refl] show ?thesis by simp
qed

text \<open>
  C6. The crisp-edges signal is to add 0.15 exactly when the mean of the sampled edge
  strengths exceeds 180. It does not: the source divides their sum by
  \<open>width * height / 25\<close>, not by the number of samples. On a 3 by 3 buffer, black but for a
  grey pixel (50, 50, 50) in the middle, there is one sample, of strength at most 101; the
  quotient by \<open>9 / 25\<close> is above 270, and the signal fires.
\<close>

theorem crisp_edges_single_sample:
  "(\<exists>e. sampledEdges 3 3 [0, 0, 0, 255, 0, 0, 0, 255, 0, 0, 0, 255,
      0, 0, 0, 255, 50, 50, 50, 255, 0, 0, 0, 255,
      0, 0, 0, 255, 0, 0, 0, 255, 0, 0, 0, 255] = [Some e] \<and> e \<le> 101) \<and>
   (\<exists>v. avgEdgeStrength 3 3 [0, 0, 0, 255, 0, 0, 0, 255, 0, 0, 0, 255,
      0, 0, 0, 255, 50, 50, 50, 255, 0, 0, 0, 255,
      0, 0, 0, 255, 0, 0, 0, 255, 0, 0, 0, 255] = Some v \<and> 270 \<le> v) \<and>
   detectCrispEdges 3 3 [0, 0, 0, 255, 0, 0, 0, 255, 0, 0, 0, 255,
      0, 0, 0, 255, 50, 50, 50, 255, 0, 0, 0, 255,
      0, 0, 0, 255, 0, 0, 0, 255, 0, 0, 0, 255] \<lparr>detectionScore = 0, reasons = []\<rparr>
     = \<lparr>detectionScore = 0.15, reasons = [''Unusually crisp edges (text/UI-like)'']\<rparr>"
  (is "(\<exists>e. sampledEdges 3 3 ?D = _ \<and> _) \<and> _ \<and> _")
proof -
  obtain e where e: "edgeStrength ?D 3 1 1 = Some e" "99 \<le> e" "e \<le> 101"
    using example_edge by blast
  have s: "sampledEdges 3 3 ?D = [Some e]"
    by (simp only: sampledEdges_def interiorGrid_3x3 list.map prod.case e)
  have "avgEdgeStrength 3 3 ?D = perSample 3 3 (foldl dadd (Some 0) [Some e])"
    by (simp only: avgEdgeStrength_def edgeScan_grid s)
  then have v: "avgEdgeStrength 3 3 ?D = Some (fl (fl (0 + e) / fl (fl 9 / 25)))"
    by (simp add: perSample_def dadd_def nadd_def)
  note b = example_avg [OF e(2)]
  have "detectCrispEdges 3 3 ?D \<lparr>detectionScore = 0, reasons = []\<rparr>
     = \<lparr>detectionScore = 0.15, reasons = [''Unusually crisp edges (text/UI-like)'']\<rparr>"
    unfolding detectCrispEdges_def v using b by (simp add: addSignal_def ngt_def)
  with s e(3) v b show ?thesis by blast
qed

lemma score_addSignal:
  "detectionScore (addSignal fires weight msg st) = detectionScore st + (if fires then weight else 0)"
  by (simp add: addSignal_def)

lemma score_detectResolution:
  "detectionScore st \<le> detectionScore (detectResolution w h st)"
  "detectionScore (detectResolution w h st) \<le> detectionScore st + 0.20"
  by (simp_all add: detectResolution_def score_addSignal)

lemma score_detectAspectRatio:
  "detectionScore st \<le> detectionScore (detectAspectRatio w h st)"
  "detectionScore (detectAspectRatio w h st) \<le> detectionScore st + 0.15"
  by (simp_all add: detectAspectRatio_def score_addSignal split: option.splits)

lemma score_detectColorDiversity:
  "detectionScore (detectColorDiversity d st) - detectionScore st \<in> {0, 0.05, 0.25}"
  by (simp add: detectColorDiversity_def Let_def score_addSignal)

lemma score_detectCrispEdges:
  "detectionScore st \<le> detectionScore (detectCrispEdges w h d st)"
  "detectionScore (detectCrispEdges w h d st) \<le> detectionScore st + 0.15"
  by (simp_all add: detectCrispEdges_def score_addSignal)

lemma score_detectSharpTransitions:
  "detectionScore st \<le> detectionScore (detectSharpTransitions w h d st)"
  "detectionScore (detectSharpTransitions w h d st) \<le> detectionScore st + 0.10"
  by (simp_all add: detectSharpTransitions_def score_addSignal)

lemma score_detectBlockiness:
  "detectionScore st \<le> detectionScore (detectBlockiness w h d rnd st)"
  "detectionScore (detectBlockiness w h d rnd st) \<le> detectionScore st + 0.10"
  by (simp_all add: detectBlockiness_def score_addSignal)

lemma screenshotScore_bounds:
  "0 \<le> detectionScore (screenshotScore w h d rnd)"
  "detectionScore (screenshotScore w h d rnd) \<le> 0.95"
proof -
  define s0 :: scoring where "s0 = \<lparr>detectionScore = 0, reasons = []\<rparr>"
  define s1 where "s1 = detectResolution w h s0"
  define s2 where "s2 = detectAspectRatio w h s1"
  define s3 where "s3 = detectColorDiversity d s2"
  define s4 where "s4 = detectCrispEdges w h d s3"
  define s5 where "s5 = detectSharpTransitions w h d s4"
  define s6 where "s6 = detectBlockiness w h d rnd s5"
  have s6: "screenshotScore w h d rnd = s6"
    by (simp add: screenshotScore_def s6_def s5_def s4_def s3_def s2_def s1_def s0_def)
  have b0: "detectionScore s0 = 0" by (simp add: s0_def)
  have b1: "detectionScore s0 \<le> detectionScore s1" "detectionScore s1 \<le> detectionScore s0 + 0.20"
    unfolding s1_def by (rule score_detectResolution)+
  have b2: "detectionScore s1 \<le> detectionScore s2" "detectionScore s2 \<le> detectionScore s1 + 0.15"
    unfolding s2_def by (rule score_detectAspectRatio)+
  have "detectionScore s3 - detectionScore s2 \<in> {0, 0.05, 0.25}"
    unfolding s3_def by (rule score_detectColorDiversity)
  then have b3: "detectionScore s2 \<le> detectionScore s3" "detectionScore s3 \<le> detectionScore s2 + 0.25"
    by auto
  have b4: "detectionScore s3 \<le> detectionScore s4" "detectionScore s4 \<le> detectionScore s3 + 0.15"
    unfolding s4_def by (rule score_detectCrispEdges)+
  have b5: "detectionScore s4 \<le> detectionScore s5" "detectionScore s5 \<le> detectionScore s4 + 0.10"
    unfolding s5_def by (rule score_detectSharpTransitions)+
  have b6: "detectionScore s5 \<le> detectionScore s6" "detectionScore s6 \<le> detectionScore s5 + 0.10"
    unfolding s6_def by (rule score_detectBlockiness)+
  show "0 \<le> detectionScore (screenshotScore w h d rnd)"
    unfolding s6 using b0 b1(1) b2(1) b3(1) b4(1) b5(1) b6(1) by linarith
  show "detectionScore (screenshotScore w h d rnd) \<le> 0.95"
    unfolding s6 using b0 b1(2) b2(2) b3(2) b4(2) b5(2) b6(2) by linarith
qed

text \<open>
  C10. For every buffer and every outcome of the random sampling the accumulated score is
  at most 0.95: the colour-diversity step adds 0, 0.05 or 0.25 and never both weights, so
  the confidence returned equals the score and \<open>min(1, score)\<close> never binds; every verdict
  \<open>detectScreenshot\<close> resolves with has confidence at most 0.95.
\<close>

theorem score_at_most_095:
  "detectionScore (screenshotScore w h d rnd) \<le> 0.95 \<and>
   detectionScore (detectColorDiversity d st) - detectionScore st \<in> {0, 0.05, 0.25} \<and>
   verdictConfidence (screenshotVerdict (screenshotScore w h d rnd))
     = detectionScore (screenshotScore w h d rnd) \<and>
   (\<exists>v. detectScreenshot b rnd = Resolved v \<and> verdictConfidence v \<le> 0.95)"
proof -
  have conf: "verdictConfidence (screenshotVerdict (screenshotScore w' h' d' rnd))
     = detectionScore (screenshotScore w' h' d' rnd)" for w' h' d'
    using screenshotScore_bounds(2) [of w' h' d' rnd] by (simp add: screenshotVerdict_def)
  have "\<exists>v. detectScreenshot b rnd = Resolved v \<and> verdictConfidence v \<le> 0.95"
    using screenshotScore_bounds(2) [of "imgWidth b" "imgHeight b" _ rnd] conf
    by (auto simp: detectScreenshot_def fallbackVerdict_def split: sum.splits)
  with conf screenshotScore_bounds(2) score_detectColorDiversity show ?thesis by blast
qed

theorem score_at_most_095_witness:
  "detectionScore (screenshotScore 1920 1080 [] (\<lambda>k. 0)) \<le> 0.95 \<and>
   detectionScore (detectColorDiversity [] \<lparr>detectionScore = 0, reasons = []\<rparr>)
     - detectionScore \<lparr>detectionScore = 0, reasons = []\<rparr> \<in> {0, 0.05, 0.25} \<and>
   verdictConfidence (screenshotVerdict (screenshotScore 1920 1080 [] (\<lambda>k. 0)))
     = detectionScore (screenshotScore 1920 1080 [] (\<lambda>k. 0)) \<and>
   (\<exists>v. detectScreenshot \<lparr>imageLoads = True, imgWidth = 1920, imgHeight = 1080, context2d = True,
              getImageData = (\<lambda>sw sh. Inr [])\<rparr> (\<lambda>k. 0) = Resolved v \<and> verdictConfidence v \<le> 0.95)"
  by (rule score_at_most_095)

text \<open>
  C9. \<open>detectScreenshot\<close> always resolves and never rejects; when the image does not load,
  when the canvas has no 2D context, and when the canvas calls throw, it resolves with the
  verdict not-a-screenshot, confidence 0 and a placeholder reason.
\<close>

theorem detectScreenshot_resolves:
  "(\<exists>v. detectScreenshot b rnd = Resolved v) \<and>
   (\<not> imageLoads b \<longrightarrow>
      detectScreenshot b rnd =
        Resolved \<lparr>isScreenshot = False, verdictConfidence = 0, reason = ''Unable to load image''\<rparr>) \<and>
   (imageLoads b \<and> \<not> context2d b \<longrightarrow>
      detectScreenshot b rnd =
        Resolved \<lparr>isScreenshot = False, verdictConfidence = 0, reason = ''Unable to analyze''\<rparr>) \<and>
   (imageLoads b \<and> context2d b \<and> isl (getImageData b (imgWidth b) (imgHeight b)) \<longrightarrow>
      detectScreenshot b rnd =
        Resolved \<lparr>isScreenshot = False, verdictConfidence = 0, reason = ''Error in analysis''\<rparr>)"
  by (auto simp: detectScreenshot_def fallbackVerdict_def split: sum.splits)

theorem detectScreenshot_resolves_witness:
  "detectScreenshot \<lparr>imageLoads = False, imgWidth = 0, imgHeight = 0, context2d = True,
       getImageData = (\<lambda>sw sh. Inl ''IndexSizeError'')\<rparr> (\<lambda>k. 0)
     = Resolved \<lparr>isScreenshot = False, verdictConfidence = 0, reason = ''Unable to load image''\<rparr> \<and>
   detectScreenshot \<lparr>imageLoads = True, imgWidth = 4, imgHeight = 4, context2d = False,
       getImageData = (\<lambda>sw sh. Inl ''IndexSizeError'')\<rparr> (\<lambda>k. 0)
     = Resolved \<lparr>isScreenshot = False, verdictConfidence = 0, reason = ''Unable to analyze''\<rparr> \<and>
   detectScreenshot \<lparr>imageLoads = True, imgWidth = 0, imgHeight = 4, context2d = True,
       getImageData = (\<lambda>sw sh. Inl ''IndexSizeError'')\<rparr> (\<lambda>k. 0)
     = Resolved \<lparr>isScreenshot = False, verdictConfidence = 0, reason = ''Error in analysis''\<rparr>"
  using
    detectScreenshot_resolves [of "\<lparr>imageLoads = False, imgWidth = 0, imgHeight = 0, context2d = True,
       getImageData = (\<lambda>sw sh. Inl ''IndexSizeError'')\<rparr>" "\<lambda>k. 0"]
    detectScreenshot_resolves [of "\<lparr>imageLoads = True, imgWidth = 4, imgHeight = 4, context2d = False,
       getImageData = (\<lambda>sw sh. Inl ''IndexSizeError'')\<rparr>" "\<lambda>k. 0"]
    detectScreenshot_resolves [of "\<lparr>imageLoads = True, imgWidth = 0, imgHeight = 4, context2d = True,
       getImageData = (\<lambda>sw sh. Inl ''IndexSizeError'')\<rparr>" "\<lambda>k. 0"]
  by simp

end
